theory Spec2Isabelle
  imports Main "HOL-Library.Word" "HOL-Library.Finite_Map" "HOL-Library.Monad_Syntax"
    "HOL-Library.Multiset" "HOL-Library.Sublist"
begin

section \<open>Data model\<close>

text \<open>
  Go's \<^verbatim>\<open>int\<close> is a 64-bit two's complement integer: addition wraps and the
  comparison \<^verbatim>\<open><\<close> is signed.  Identities and weights are such integers.
\<close>

type_synonym go_int = "64 word"

text \<open>
  \<^verbatim>\<open>type Vertex struct { ID int; Name string; Data any; Edges []*Edge }\<close> and
  \<^verbatim>\<open>type Edge struct { From *Vertex; To *Vertex; Weight int; Data any }\<close>.
  A payload of type \<^verbatim>\<open>any\<close> is an optional opaque value (\<open>None\<close> is \<^verbatim>\<open>nil\<close>).
  The pointers \<open>From\<close> and \<open>To\<close> of an edge are modelled by the vertex record they
  point to: the package only ever stores pointers to private copies of a vertex
  (\<^verbatim>\<open>GetVertex\<close> returns the address of a local copy, \<^verbatim>\<open>AddVertex\<close> the address of
  its parameter), and nothing writes through them.  Edge endpoints are always present;
  a \<^verbatim>\<open>nil\<close> endpoint, which every function reading \<^verbatim>\<open>edge.From.ID\<close> would
  dereference, is not represented.
\<close>

datatype 'a Vertex = Vertex (ID: go_int) (Name: string) (Data: "'a option") (Edges: "'a Edge list")
  and 'a Edge = Edge (From: "'a Vertex") (To: "'a Vertex") (Weight: go_int) (EData: "'a option")

text \<open>The zero value of \<^verbatim>\<open>Vertex\<close>, which a Go map returns for a missing key.\<close>

definition zero_Vertex :: "'a Vertex" where
  "zero_Vertex = Vertex 0 [] None []"

text \<open>\<^verbatim>\<open>func (e *Edge) Reverse() *Edge\<close>\<close>

definition Reverse :: "'a Edge \<Rightarrow> 'a Edge" where
  "Reverse e = Edge (To e) (From e) (Weight e) (EData e)"

text \<open>\<^verbatim>\<open>func (e *Edge) Compare(other *Edge) int\<close>\<close>

definition Compare :: "'a Edge \<Rightarrow> 'a Edge \<Rightarrow> int" where
  "Compare e other =
     (if Weight e <s Weight other then - 1
      else if Weight other <s Weight e then 1
      else 0)"

text \<open>
  \<^verbatim>\<open>type Graph struct { Vertices map[int]Vertex; Edges []*Edge; Directed bool }\<close>.
  The field \<^verbatim>\<open>Edges\<close> of the graph is called \<open>GEdges\<close> here, the name \<open>Edges\<close>
  being taken by the vertex.
\<close>

record 'a Graph =
  Vertices :: "(go_int, 'a Vertex) fmap"
  GEdges :: "'a Edge list"
  Directed :: bool

definition NewGraph :: "bool \<Rightarrow> 'a Graph" where
  "NewGraph directed = \<lparr>Vertices = fmempty, GEdges = [], Directed = directed\<rparr>"

text \<open>The map read \<^verbatim>\<open>g.Vertices[id]\<close>: the zero vertex for a missing key.\<close>

definition vertex_at :: "'a Graph \<Rightarrow> go_int \<Rightarrow> 'a Vertex" where
  "vertex_at g k = (case fmlookup (Vertices g) k of Some v \<Rightarrow> v | None \<Rightarrow> zero_Vertex)"

text \<open>\<^verbatim>\<open>func (g *Graph) GetVertex(id int) (*Vertex, bool)\<close>\<close>

definition GetVertex :: "'a Graph \<Rightarrow> go_int \<Rightarrow> 'a Vertex \<times> bool" where
  "GetVertex g k = (vertex_at g k, fmlookup (Vertices g) k \<noteq> None)"

text \<open>
  \<^verbatim>\<open>func (g *Graph) AddVertex(vertex Vertex) *Vertex\<close>: the vertex the returned
  pointer refers to, and the graph after the call.
\<close>

definition AddVertex :: "'a Graph \<Rightarrow> 'a Vertex \<Rightarrow> 'a Vertex \<times> 'a Graph" where
  "AddVertex g vertex =
     (case GetVertex g (ID vertex) of
        (v, True) \<Rightarrow> (v, g)
      | (v, False) \<Rightarrow> (vertex, g\<lparr>Vertices := fmupd (ID vertex) vertex (Vertices g)\<rparr>))"

text \<open>The statement \<^verbatim>\<open>v := g.Vertices[k]; v.Edges = append(v.Edges, e); g.Vertices[k] = v\<close>.\<close>

definition append_adjacency :: "'a Graph \<Rightarrow> go_int \<Rightarrow> 'a Edge \<Rightarrow> 'a Graph" where
  "append_adjacency g k e =
     (let v = vertex_at g k;
          v' = Vertex (ID v) (Name v) (Data v) (Edges v @ [e])
      in g\<lparr>Vertices := fmupd k v' (Vertices g)\<rparr>)"

text \<open>
  \<^verbatim>\<open>func (g *Graph) AddEdge(edge Edge) *Edge\<close>: the canonical edge the returned
  pointer refers to, and the graph after the call.
\<close>

definition AddEdge :: "'a Graph \<Rightarrow> 'a Edge \<Rightarrow> 'a Edge \<times> 'a Graph" where
  "AddEdge g edge =
     (let (from0, fromExists) = GetVertex g (ID (From edge));
          (to0, toExists) = GetVertex g (ID (To edge));
          (from, g1) = (if \<not> fromExists then AddVertex g (From edge) else (from0, g));
          (to, g2) = (if \<not> toExists then AddVertex g1 (To edge) else (to0, g1));
          newEdge = Edge from to (Weight edge) (EData edge);
          g3 = g2\<lparr>GEdges := GEdges g2 @ [newEdge]\<rparr>;
          g4 = append_adjacency g3 (ID from) newEdge;
          g5 = (if \<not> Directed g4 then append_adjacency g4 (ID to) (Reverse newEdge) else g4)
      in (newEdge, g5))"

text \<open>\<^verbatim>\<open>VertexCount\<close> and \<^verbatim>\<open>EdgeCount\<close>: the lengths, as Go integers would count them.\<close>

definition VertexCount :: "'a Graph \<Rightarrow> int" where
  "VertexCount g = int (fcard (fmdom (Vertices g)))"

definition EdgeCount :: "'a Graph \<Rightarrow> int" where
  "EdgeCount g = int (length (GEdges g))"

text \<open>The adjacency list the graph holds for an identity.\<close>

definition adjacency :: "'a Graph \<Rightarrow> go_int \<Rightarrow> 'a Edge list" where
  "adjacency g k = Edges (vertex_at g k)"

text \<open>
  The vertex record an endpoint of \<^verbatim>\<open>AddEdge\<close> resolves to before the new edge is
  appended: the stored one when the identity is present, the caller's otherwise.
\<close>

definition resolve :: "'a Graph \<Rightarrow> 'a Vertex \<Rightarrow> 'a Vertex" where
  "resolve g v = (case fmlookup (Vertices g) (ID v) of Some u \<Rightarrow> u | None \<Rightarrow> v)"

section \<open>Graph construction\<close>

lemma vertex_at_Some: "fmlookup (Vertices g) k = Some v \<Longrightarrow> vertex_at g k = v"
  by (simp add: vertex_at_def)

lemma vertex_at_upd:
  "vertex_at (g\<lparr>Vertices := fmupd k v (Vertices g)\<rparr>) k' = (if k = k' then v else vertex_at g k')"
  by (simp add: vertex_at_def)

lemma vertex_at_GEdges_upd: "vertex_at (g\<lparr>GEdges := es\<rparr>) k = vertex_at g k"
  by (simp add: vertex_at_def)

lemma adjacency_append:
  "adjacency (append_adjacency g k e) k' =
     (if k = k' then adjacency g k @ [e] else adjacency g k')"
  by (simp add: adjacency_def append_adjacency_def Let_def vertex_at_upd)

lemma GEdges_append_adjacency: "GEdges (append_adjacency g k e) = GEdges g"
  by (simp add: append_adjacency_def Let_def)

lemma Directed_append_adjacency: "Directed (append_adjacency g k e) = Directed g"
  by (simp add: append_adjacency_def Let_def)

lemma fmdom_append_adjacency:
  "fmdom (Vertices (append_adjacency g k e)) = finsert k (fmdom (Vertices g))"
  by (simp add: append_adjacency_def Let_def)

text \<open>The graph after the endpoints of an edge have been resolved.\<close>

definition with_endpoints :: "'a Graph \<Rightarrow> 'a Edge \<Rightarrow> 'a Graph" where
  "with_endpoints g edge = snd (AddVertex (snd (AddVertex g (From edge))) (To edge))"

lemma AddVertex_present:
  "fmlookup (Vertices g) (ID v) = Some u \<Longrightarrow> AddVertex g v = (u, g)"
  by (simp add: AddVertex_def GetVertex_def vertex_at_def)

lemma AddVertex_absent:
  "fmlookup (Vertices g) (ID v) = None \<Longrightarrow>
   AddVertex g v = (v, g\<lparr>Vertices := fmupd (ID v) v (Vertices g)\<rparr>)"
  by (simp add: AddVertex_def GetVertex_def vertex_at_def)

lemma AddVertex_resolve: "fst (AddVertex g v) = resolve g v"
  by (cases "fmlookup (Vertices g) (ID v)")
     (simp_all add: AddVertex_present AddVertex_absent resolve_def)

lemma ID_resolve:
  "(\<And>k u. fmlookup (Vertices g) k = Some u \<Longrightarrow> ID u = k) \<Longrightarrow> ID (resolve g v) = ID v"
  by (cases "fmlookup (Vertices g) (ID v)") (simp_all add: resolve_def)


text \<open>
  Every vertex is stored under its own identity: \<^verbatim>\<open>AddVertex\<close> is the only writer of
  a new key and stores \<^verbatim>\<open>vertex\<close> at \<^verbatim>\<open>vertex.ID\<close>.
\<close>

definition keyed :: "'a Graph \<Rightarrow> bool" where
  "keyed g = fmpred (\<lambda>k v. ID v = k) (Vertices g)"

lemma keyedD: "keyed g \<Longrightarrow> fmlookup (Vertices g) k = Some u \<Longrightarrow> ID u = k"
  by (auto simp: keyed_def fmpred_iff)

lemma AddEdge_eq:
  "AddEdge g edge =
     (let (from, g1) = AddVertex g (From edge);
          (to, g2) = AddVertex g1 (To edge);
          newEdge = Edge from to (Weight edge) (EData edge);
          g3 = g2\<lparr>GEdges := GEdges g2 @ [newEdge]\<rparr>;
          g4 = append_adjacency g3 (ID from) newEdge;
          g5 = (if \<not> Directed g4 then append_adjacency g4 (ID to) (Reverse newEdge) else g4)
      in (newEdge, g5))"
  apply (cases "fmlookup (Vertices g) (ID (From edge))"; cases "fmlookup (Vertices g) (ID (To edge))")
  apply (auto simp: AddEdge_def GetVertex_def AddVertex_def vertex_at_def Let_def split: prod.splits bool.splits option.splits)
  done

lemma AddVertex_snd_lookup:
  "fmlookup (Vertices (snd (AddVertex g v))) k =
     (if k = ID v \<and> fmlookup (Vertices g) k = None then Some v else fmlookup (Vertices g) k)"
  by (cases "fmlookup (Vertices g) (ID v)") (auto simp: AddVertex_present AddVertex_absent)

lemma AddVertex_snd_GEdges: "GEdges (snd (AddVertex g v)) = GEdges g"
  by (cases "fmlookup (Vertices g) (ID v)") (auto simp: AddVertex_present AddVertex_absent)

lemma AddVertex_snd_Directed: "Directed (snd (AddVertex g v)) = Directed g"
  by (cases "fmlookup (Vertices g) (ID v)") (auto simp: AddVertex_present AddVertex_absent)

lemma vertex_at_AddVertex:
  "vertex_at (snd (AddVertex g v)) k =
     (if k = ID v then resolve g v else vertex_at g k)"
  by (auto simp: vertex_at_def AddVertex_snd_lookup resolve_def split: option.splits)

lemma keyed_AddVertex: "keyed g \<Longrightarrow> keyed (snd (AddVertex g v))"
  by (cases "fmlookup (Vertices g) (ID v)") (auto simp: AddVertex_present AddVertex_absent keyed_def)

lemma ID_resolve_keyed: "keyed g \<Longrightarrow> ID (resolve g v) = ID v"
  by (auto simp: resolve_def dest: keyedD split: option.splits)

definition canonical :: "'a Graph \<Rightarrow> 'a Edge \<Rightarrow> 'a Edge" where
  "canonical g edge =
     Edge (resolve g (From edge)) (resolve (snd (AddVertex g (From edge))) (To edge))
       (Weight edge) (EData edge)"

lemma AddEdge_fst: "fst (AddEdge g edge) = canonical g edge"
  by (simp add: AddEdge_eq canonical_def Let_def split: prod.splits)
    (metis AddVertex_resolve fst_conv snd_conv)

lemma AddEdge_snd:
  assumes "keyed g"
  shows "snd (AddEdge g edge) =
     (let g2 = with_endpoints g edge;
          ne = canonical g edge;
          g3 = g2\<lparr>GEdges := GEdges g2 @ [ne]\<rparr>;
          g4 = append_adjacency g3 (ID (From edge)) ne
      in if \<not> Directed g then append_adjacency g4 (ID (To edge)) (Reverse ne) else g4)"
proof -
  obtain frm g1 where a1: "AddVertex g (From edge) = (frm, g1)"
    by fastforce
  obtain to g2 where a2: "AddVertex g1 (To edge) = (to, g2)"
    by fastforce
  have f: "frm = resolve g (From edge)" and g1: "g1 = snd (AddVertex g (From edge))"
    using a1 AddVertex_resolve [of g "From edge"] by simp_all
  have t: "to = resolve g1 (To edge)" and g2: "g2 = snd (AddVertex g1 (To edge))"
    using a2 AddVertex_resolve [of g1 "To edge"] by simp_all
  have k1: "keyed g1"
    using assms g1 keyed_AddVertex by blast
  have idf: "ID frm = ID (From edge)"
    using assms f ID_resolve_keyed by blast
  have idt: "ID to = ID (To edge)"
    using k1 t ID_resolve_keyed by blast
  have d: "Directed g2 = Directed g"
    by (simp add: g2 g1 AddVertex_snd_Directed)
  have ne: "Edge frm to (Weight edge) (EData edge) = canonical g edge"
    by (simp add: canonical_def f t g1)
  show ?thesis
    by (simp add: AddEdge_eq a1 a2 Let_def ne idf idt d Directed_append_adjacency
        with_endpoints_def g1 [symmetric] g2 [symmetric])
qed

lemma keyed_NewGraph: "keyed (NewGraph d)"
  by (simp add: keyed_def NewGraph_def)

lemma keyed_append_adjacency:
  "keyed g \<Longrightarrow> ID (vertex_at g k) = k \<Longrightarrow> keyed (append_adjacency g k e)"
  by (simp add: keyed_def append_adjacency_def Let_def fmpred_upd)

lemma keyed_GEdges_upd: "keyed (g\<lparr>GEdges := es\<rparr>) = keyed g"
  by (simp add: keyed_def)

lemma with_endpoints_lookup:
  "fmlookup (Vertices (with_endpoints g edge)) k =
     (if k = ID (From edge) \<and> fmlookup (Vertices g) k = None then Some (From edge)
      else if k = ID (To edge) \<and> fmlookup (Vertices g) k = None then Some (To edge)
      else fmlookup (Vertices g) k)"
  by (auto simp: with_endpoints_def AddVertex_snd_lookup)

lemma keyed_with_endpoints: "keyed g \<Longrightarrow> keyed (with_endpoints g edge)"
  by (simp add: with_endpoints_def keyed_AddVertex)

lemma ID_vertex_at_append_adjacency:
  "ID (vertex_at (append_adjacency g k e) k') = ID (vertex_at g k')"
  by (simp add: append_adjacency_def Let_def vertex_at_def)

lemma vertex_at_with_endpoints_ID:
  assumes "keyed g" and "k = ID (From edge) \<or> k = ID (To edge)"
  shows "ID (vertex_at (with_endpoints g edge) k) = k"
proof -
  have "fmlookup (Vertices (with_endpoints g edge)) k \<noteq> None"
    using assms(2) by (auto simp: with_endpoints_lookup)
  then obtain u where "fmlookup (Vertices (with_endpoints g edge)) k = Some u"
    by blast
  then show ?thesis
    using keyedD [OF keyed_with_endpoints [OF assms(1)]] by (simp add: vertex_at_def)
qed

lemma keyed_AddEdge:
  assumes "keyed g"
  shows "keyed (snd (AddEdge g edge))"
proof -
  let ?g3 = "with_endpoints g edge\<lparr>GEdges := GEdges (with_endpoints g edge) @ [canonical g edge]\<rparr>"
  let ?g4 = "append_adjacency ?g3 (ID (From edge)) (canonical g edge)"
  have k3: "keyed ?g3"
    by (simp add: keyed_GEdges_upd keyed_with_endpoints assms)
  have "ID (vertex_at ?g3 (ID (From edge))) = ID (From edge)"
    using vertex_at_with_endpoints_ID [OF assms, of "ID (From edge)" edge]
    by (simp add: vertex_at_GEdges_upd)
  then have k4: "keyed ?g4"
    using k3 keyed_append_adjacency by blast
  have "ID (vertex_at ?g4 (ID (To edge))) = ID (To edge)"
    using vertex_at_with_endpoints_ID [OF assms, of "ID (To edge)" edge]
    by (simp add: ID_vertex_at_append_adjacency vertex_at_GEdges_upd)
  then have "keyed (append_adjacency ?g4 (ID (To edge)) (Reverse (canonical g edge)))"
    using k4 keyed_append_adjacency by blast
  then show ?thesis
    using k4 by (simp add: AddEdge_snd [OF assms] Let_def)
qed

section \<open>Union-Find\<close>

text \<open>A read \<^verbatim>\<open>m[k]\<close> of a Go \<^verbatim>\<open>map[int]int\<close>: zero for a missing key.\<close>

definition int_at :: "(go_int, go_int) fmap \<Rightarrow> go_int \<Rightarrow> go_int" where
  "int_at m k = (case fmlookup m k of Some v \<Rightarrow> v | None \<Rightarrow> 0)"

text \<open>\<^verbatim>\<open>type UnionFind struct { parent map[int]int; rank map[int]int }\<close>\<close>

record UnionFind =
  parent :: "(go_int, go_int) fmap"
  rank :: "(go_int, go_int) fmap"

definition NewUnionFind :: UnionFind where
  "NewUnionFind = \<lparr>parent = fmempty, rank = fmempty\<rparr>"

text \<open>\<^verbatim>\<open>func (uf *UnionFind) MakeSet(x int)\<close>\<close>

definition MakeSet :: "UnionFind \<Rightarrow> go_int \<Rightarrow> UnionFind" where
  "MakeSet uf x =
     (if fmlookup (parent uf) x = None
      then uf\<lparr>parent := fmupd x x (parent uf), rank := fmupd x 0 (rank uf)\<rparr>
      else uf)"

text \<open>
  \<^verbatim>\<open>func (uf *UnionFind) Find(x int) int\<close>, with path compression.  The recursion
  follows parent links and does not return on a cyclic chain; not returning is \<open>None\<close>.
  The result is the root and the structure after the compression.
\<close>

partial_function (option) Find :: "UnionFind \<Rightarrow> go_int \<Rightarrow> (go_int \<times> UnionFind) option" where
  "Find uf x =
     (if int_at (parent uf) x \<noteq> x
      then do {
        (r, uf1) \<leftarrow> Find uf (int_at (parent uf) x);
        let uf2 = uf1\<lparr>parent := fmupd x r (parent uf1)\<rparr>;
        Some (int_at (parent uf2) x, uf2)
      }
      else Some (int_at (parent uf) x, uf))"

text \<open>
  \<^verbatim>\<open>func (uf *UnionFind) Union(x, y int) bool\<close> (named \<open>Union_uf\<close>, \<open>Union\<close>
  being the union of a set of sets in HOL).
\<close>

definition Union_uf :: "UnionFind \<Rightarrow> go_int \<Rightarrow> go_int \<Rightarrow> (bool \<times> UnionFind) option" where
  "Union_uf uf x y = do {
     (rootX, uf1) \<leftarrow> Find uf x;
     (rootY, uf2) \<leftarrow> Find uf1 y;
     if rootX = rootY then Some (False, uf2)
     else if int_at (rank uf2) rootX <s int_at (rank uf2) rootY
       then Some (True, uf2\<lparr>parent := fmupd rootX rootY (parent uf2)\<rparr>)
     else if int_at (rank uf2) rootY <s int_at (rank uf2) rootX
       then Some (True, uf2\<lparr>parent := fmupd rootY rootX (parent uf2)\<rparr>)
     else Some (True, uf2\<lparr>parent := fmupd rootY rootX (parent uf2),
                          rank := fmupd rootX (int_at (rank uf2) rootX + 1) (rank uf2)\<rparr>)
   }"

text \<open>The root an element reaches by following parent links.\<close>

inductive root_of :: "(go_int, go_int) fmap \<Rightarrow> go_int \<Rightarrow> go_int \<Rightarrow> bool" for p where
  root_self: "int_at p x = x \<Longrightarrow> root_of p x x"
| root_step: "int_at p x \<noteq> x \<Longrightarrow> root_of p (int_at p x) r \<Longrightarrow> root_of p x r"

declare Find.simps [code]

lemma int_at_upd: "int_at (fmupd k v m) k' = (if k = k' then v else int_at m k')"
  by (simp add: int_at_def)

lemma root_of_is_root: "root_of p x r \<Longrightarrow> int_at p r = r"
  by (induction rule: root_of.induct) auto

lemma root_of_unique: "root_of p x r \<Longrightarrow> root_of p x r' \<Longrightarrow> r = r'"
proof (induction arbitrary: r' rule: root_of.induct)
  case (root_self x)
  then show ?case by (auto elim: root_of.cases)
next
  case (root_step x r)
  from root_step.prems root_step.hyps(1) have "root_of p (int_at p x) r'"
    by (auto elim: root_of.cases)
  then show ?case by (rule root_step.IH)
qed

lemma root_of_root_iff: "int_at p x = x \<Longrightarrow> root_of p x r \<longleftrightarrow> r = x"
  by (auto intro: root_self elim: root_of.cases)

lemma root_of_compress_fwd:
  assumes xr: "root_of p x r"
  shows "root_of p z s \<Longrightarrow> root_of (fmupd x r p) z s"
proof (induction rule: root_of.induct)
  case (root_self z)
  then show ?case
    using xr by (auto simp: int_at_upd root_of_root_iff intro!: root_of.root_self)
next
  case (root_step z s)
  show ?case
  proof (cases "z = x")
    case True
    then have "s = r" using root_step.hyps xr root_of_unique root_of.root_step by blast
    moreover have "r \<noteq> x" using root_of_is_root [OF xr] root_step.hyps(1) True by auto
    moreover have "root_of (fmupd x r p) r r"
      using root_of_is_root [OF xr] \<open>r \<noteq> x\<close> by (auto simp: int_at_upd intro: root_of.root_self)
    ultimately show ?thesis
      using True by (auto simp: int_at_upd intro: root_of.root_step)
  next
    case False
    then show ?thesis
      using root_step by (auto simp: int_at_upd intro: root_of.root_step)
  qed
qed

lemma root_of_compress_bwd:
  assumes xr: "root_of p x r"
  shows "root_of (fmupd x r p) z s \<Longrightarrow> root_of p z s"
proof (induction rule: root_of.induct)
  case (root_self z)
  then show ?case
    using xr root_of_is_root [OF xr]
    by (auto simp: int_at_upd intro: root_of.root_self split: if_splits)
next
  case (root_step z s)
  show ?case
  proof (cases "z = x")
    case True
    then have "root_of p r s" using root_step by (simp add: int_at_upd)
    then have "s = r" using root_of_is_root [OF xr] by (simp add: root_of_root_iff)
    then show ?thesis using xr True by simp
  next
    case False
    then show ?thesis
      using root_step by (auto simp: int_at_upd intro: root_of.root_step)
  qed
qed

lemma root_of_compress: "root_of p x r \<Longrightarrow> root_of (fmupd x r p) z s \<longleftrightarrow> root_of p z s"
  using root_of_compress_fwd root_of_compress_bwd by blast

lemma Find_root_of:
  "root_of (parent uf) x r \<Longrightarrow>
   \<exists>uf'. Find uf x = Some (r, uf') \<and> rank uf' = rank uf
     \<and> (\<forall>z s. root_of (parent uf') z s \<longleftrightarrow> root_of (parent uf) z s)"
proof (induction rule: root_of.induct)
  case (root_self x)
  then show ?case
    by (subst Find.simps) simp
next
  case (root_step x r)
  then obtain uf1 where f: "Find uf (int_at (parent uf) x) = Some (r, uf1)"
    and rk: "rank uf1 = rank uf"
    and rt: "\<And>z s. root_of (parent uf1) z s \<longleftrightarrow> root_of (parent uf) z s"
    by blast
  have xr: "root_of (parent uf1) x r"
    using rt root_step.hyps root_of.root_step by blast
  let ?uf2 = "uf1\<lparr>parent := fmupd x r (parent uf1)\<rparr>"
  have "Find uf x = Some (r, ?uf2)"
    using root_step.hyps(1) f by (subst Find.simps) (simp add: int_at_upd)
  moreover have "rank ?uf2 = rank uf" using rk by simp
  moreover have "root_of (parent ?uf2) z s \<longleftrightarrow> root_of (parent uf) z s" for z s
    using root_of_compress [OF xr] rt by simp
  ultimately show ?case by blast
qed


lemma root_of_link_fwd:
  assumes "int_at p rx = rx" "int_at p ry = ry" "rx \<noteq> ry"
  shows "root_of p z t \<Longrightarrow> root_of (fmupd ry rx p) z (if t = ry then rx else t)"
proof (induction rule: root_of.induct)
  case (root_self z)
  show ?case
  proof (cases "z = ry")
    case True
    have "root_of (fmupd ry rx p) rx rx"
      using assms by (auto simp: int_at_upd intro: root_of.root_self)
    then have "root_of (fmupd ry rx p) ry rx"
      using assms by (auto simp: int_at_upd intro: root_of.root_step)
    then show ?thesis using True by simp
  next
    case False
    then show ?thesis
      using root_self by (auto simp: int_at_upd intro: root_of.root_self)
  qed
next
  case (root_step z t)
  then have "z \<noteq> ry" using assms by auto
  then show ?case
    using root_step by (auto simp: int_at_upd intro: root_of.root_step)
qed

lemma root_of_link_bwd:
  assumes "int_at p rx = rx" "int_at p ry = ry" "rx \<noteq> ry"
  shows "root_of (fmupd ry rx p) z s \<Longrightarrow> \<exists>t. root_of p z t \<and> s = (if t = ry then rx else t)"
proof (induction rule: root_of.induct)
  case (root_self z)
  then have "z \<noteq> ry" using assms by (auto simp: int_at_upd)
  then show ?case
    using root_self by (auto simp: int_at_upd intro: root_of.root_self)
next
  case (root_step z s)
  show ?case
  proof (cases "z = ry")
    case True
    from root_step.IH obtain t where t: "root_of p (int_at (fmupd ry rx p) z) t"
      and s: "s = (if t = ry then rx else t)" by blast
    from t True have "root_of p rx t" by (simp add: int_at_upd)
    then have "t = rx" using assms(1) by (simp add: root_of_root_iff)
    then have "s = rx" using s assms(3) by simp
    moreover have "root_of p ry ry" using assms(2) by (rule root_of.root_self)
    ultimately show ?thesis using True by auto
  next
    case False
    from root_step.IH obtain t where t: "root_of p (int_at (fmupd ry rx p) z) t"
      and s: "s = (if t = ry then rx else t)" by blast
    have eq: "int_at (fmupd ry rx p) z = int_at p z"
      using False by (simp add: int_at_upd)
    have "root_of p z t"
      using t root_step.hyps(1) unfolding eq by (rule root_of.root_step [rotated])
    then show ?thesis using s by blast
  qed
qed

lemma root_of_link:
  assumes "int_at p rx = rx" "int_at p ry = ry" "rx \<noteq> ry"
  shows "root_of (fmupd ry rx p) z s \<longleftrightarrow> (\<exists>t. root_of p z t \<and> s = (if t = ry then rx else t))"
  using root_of_link_fwd [OF assms] root_of_link_bwd [OF assms] by blast

text \<open>The roots of two maps agree.\<close>

definition same_roots :: "(go_int, go_int) fmap \<Rightarrow> (go_int, go_int) fmap \<Rightarrow> bool" where
  "same_roots p q = (\<forall>z s. root_of q z s = root_of p z s)"

text \<open>Every element has a root: no chain of parents runs in a cycle.\<close>

definition uf_inv :: "UnionFind \<Rightarrow> bool" where
  "uf_inv uf = (\<forall>x. \<exists>r. root_of (parent uf) x r)"

text \<open>What \<^verbatim>\<open>Union\<close> does after its two \<^verbatim>\<open>Find\<close> calls, on the roots they returned.\<close>

definition link :: "UnionFind \<Rightarrow> go_int \<Rightarrow> go_int \<Rightarrow> UnionFind" where
  "link uf rootX rootY =
     (if int_at (rank uf) rootX <s int_at (rank uf) rootY
        then uf\<lparr>parent := fmupd rootX rootY (parent uf)\<rparr>
      else if int_at (rank uf) rootY <s int_at (rank uf) rootX
        then uf\<lparr>parent := fmupd rootY rootX (parent uf)\<rparr>
      else uf\<lparr>parent := fmupd rootY rootX (parent uf),
               rank := fmupd rootX (int_at (rank uf) rootX + 1) (rank uf)\<rparr>)"

lemma Find_two:
  assumes x: "root_of (parent uf) x rx" and y: "root_of (parent uf) y ry"
  shows "\<exists>uf1 uf2. Find uf x = Some (rx, uf1) \<and> Find uf1 y = Some (ry, uf2)
     \<and> rank uf2 = rank uf \<and> same_roots (parent uf) (parent uf2)"
proof -
  obtain uf1 where 1: "Find uf x = Some (rx, uf1)" "rank uf1 = rank uf"
    "\<And>z s. root_of (parent uf1) z s \<longleftrightarrow> root_of (parent uf) z s"
    using Find_root_of [OF x] by blast
  have "root_of (parent uf1) y ry" using 1(3) y by blast
  then obtain uf2 where 2: "Find uf1 y = Some (ry, uf2)" "rank uf2 = rank uf1"
    "\<And>z s. root_of (parent uf2) z s \<longleftrightarrow> root_of (parent uf1) z s"
    using Find_root_of by blast
  show ?thesis
    using 1 2 by (auto simp: same_roots_def)
qed

lemma Union_uf_eq:
  "Find uf x = Some (rx, uf1) \<Longrightarrow> Find uf1 y = Some (ry, uf2) \<Longrightarrow>
   Union_uf uf x y = (if rx = ry then Some (False, uf2) else Some (True, link uf2 rx ry))"
  by (simp add: Union_uf_def link_def)

lemma link_roots:
  assumes "int_at (parent uf) rx = rx" "int_at (parent uf) ry = ry" "rx \<noteq> ry"
  shows "\<exists>a b. (a = rx \<and> b = ry \<or> a = ry \<and> b = rx)
     \<and> parent (link uf rx ry) = fmupd a b (parent uf)
     \<and> (\<forall>z s. root_of (parent (link uf rx ry)) z s \<longleftrightarrow>
           (\<exists>t. root_of (parent uf) z t \<and> s = (if t = a then b else t)))"
proof (cases "int_at (rank uf) rx <s int_at (rank uf) ry")
  case True
  then have "parent (link uf rx ry) = fmupd rx ry (parent uf)"
    by (simp add: link_def)
  then show ?thesis
    using root_of_link [OF assms(2) assms(1)] assms(3) by auto
next
  case False
  then have "parent (link uf rx ry) = fmupd ry rx (parent uf)"
    by (simp add: link_def)
  then show ?thesis
    using root_of_link [OF assms(1) assms(2) assms(3)] by auto
qed

lemma uf_inv_link:
  assumes "uf_inv uf" "int_at (parent uf) rx = rx" "int_at (parent uf) ry = ry" "rx \<noteq> ry"
  shows "uf_inv (link uf rx ry)"
proof -
  obtain a b where ab: "\<And>z s. root_of (parent (link uf rx ry)) z s \<longleftrightarrow>
      (\<exists>t. root_of (parent uf) z t \<and> s = (if t = a then b else t))"
    using link_roots [OF assms(2-4)] by blast
  have "\<exists>s. root_of (parent (link uf rx ry)) z s" for z
  proof -
    obtain t where "root_of (parent uf) z t"
      using assms(1) unfolding uf_inv_def by blast
    then have "root_of (parent (link uf rx ry)) z (if t = a then b else t)"
      using ab by blast
    then show ?thesis by blast
  qed
  then show ?thesis
    by (simp add: uf_inv_def)
qed

lemma uf_inv_same_roots: "uf_inv uf \<Longrightarrow> same_roots (parent uf) (parent uf') \<Longrightarrow> uf_inv uf'"
  by (simp add: uf_inv_def same_roots_def)

lemma root_of_missing:
  assumes "fmlookup p x = None" and "root_of p 0 r"
  shows "root_of p x r"
proof (cases "x = 0")
  case True
  then show ?thesis using assms(2) by simp
next
  case False
  then show ?thesis
    using assms by (auto simp: int_at_def intro: root_of.root_step)
qed

lemma uf_inv_New: "uf_inv NewUnionFind"
proof -
  have "root_of (fmempty :: (go_int, go_int) fmap) 0 0"
    by (rule root_of.root_self) (simp add: int_at_def)
  then have "root_of (fmempty :: (go_int, go_int) fmap) x 0" for x
    by (rule root_of_missing [rotated]) simp
  then show ?thesis
    unfolding uf_inv_def NewUnionFind_def by auto
qed

lemma root_of_MakeSet_fwd:
  assumes "fmlookup p x = None"
  shows "root_of p z s \<Longrightarrow> \<exists>s'. root_of (fmupd x x p) z s'"
proof (induction rule: root_of.induct)
  case (root_self z)
  then show ?case
    by (auto simp: int_at_upd intro!: root_of.root_self exI [of _ z])
next
  case (root_step z s)
  show ?case
  proof (cases "z = x")
    case True
    then show ?thesis
      by (auto simp: int_at_upd intro!: root_of.root_self exI [of _ x])
  next
    case False
    from root_step.IH obtain s' where "root_of (fmupd x x p) (int_at p z) s'"
      by blast
    then have "root_of (fmupd x x p) z s'"
      using False root_step.hyps(1) by (auto simp: int_at_upd intro: root_of.root_step)
    then show ?thesis by blast
  qed
qed

lemma uf_inv_MakeSet:
  assumes "uf_inv uf"
  shows "uf_inv (MakeSet uf x)"
proof (cases "fmlookup (parent uf) x = None")
  case True
  have "\<exists>s'. root_of (fmupd x x (parent uf)) z s'" for z
  proof -
    obtain s where "root_of (parent uf) z s"
      using assms unfolding uf_inv_def by blast
    then show ?thesis
      by (rule root_of_MakeSet_fwd [OF True])
  qed
  then show ?thesis
    using True by (simp add: uf_inv_def MakeSet_def)
next
  case False
  then have "MakeSet uf x = uf"
    by (auto simp: MakeSet_def)
  then show ?thesis
    using assms by simp
qed


lemma link_cases:
  "(int_at (rank uf) rx <s int_at (rank uf) ry \<longrightarrow>
      link uf rx ry = uf\<lparr>parent := fmupd rx ry (parent uf)\<rparr>)
   \<and> (int_at (rank uf) ry <s int_at (rank uf) rx \<longrightarrow>
      link uf rx ry = uf\<lparr>parent := fmupd ry rx (parent uf)\<rparr>)
   \<and> (int_at (rank uf) rx = int_at (rank uf) ry \<longrightarrow>
      link uf rx ry = uf\<lparr>parent := fmupd ry rx (parent uf),
                             rank := fmupd rx (int_at (rank uf) rx + 1) (rank uf)\<rparr>)"
  by (auto simp: link_def word_sless_alt)

lemma sless_total: "\<not> a <s b \<Longrightarrow> \<not> b <s a \<Longrightarrow> a = (b :: go_int)"
  by (metis word_sless_alt signed_word_eqI linorder_neqE)

text \<open>
  C6 (amended).  On a union-find structure in which every element has a root,
  \<^verbatim>\<open>Union(a, b)\<close> finds the two roots (compressing the two search paths, which keeps
  every element's root and every rank) and returns false, with no further change, exactly
  when the roots are equal.  Otherwise it returns true after merging by rank: the root of
  lower rank is attached under the other, and on a tie the second root is attached under
  the first, whose rank grows by one.  After a successful union \<^verbatim>\<open>Find(a)\<close> and
  \<^verbatim>\<open>Find(b)\<close> return the same root, and a repeated \<^verbatim>\<open>Union(a, b)\<close> returns false
  and keeps every element's root and every rank.
\<close>

theorem Union_uf_spec:
  assumes "uf_inv uf"
  shows "\<exists>rx ry uf2.
      root_of (parent uf) a rx \<and> root_of (parent uf) b ry
    \<and> (\<exists>uf1. Find uf a = Some (rx, uf1) \<and> Find uf1 b = Some (ry, uf2))
    \<and> rank uf2 = rank uf \<and> same_roots (parent uf) (parent uf2)
    \<and> (rx = ry \<longrightarrow> Union_uf uf a b = Some (False, uf2))
    \<and> (rx \<noteq> ry \<longrightarrow>
         (\<exists>uf'. Union_uf uf a b = Some (True, uf')
          \<and> (int_at (rank uf) rx <s int_at (rank uf) ry \<longrightarrow>
                uf' = uf2\<lparr>parent := fmupd rx ry (parent uf2)\<rparr>)
          \<and> (int_at (rank uf) ry <s int_at (rank uf) rx \<longrightarrow>
                uf' = uf2\<lparr>parent := fmupd ry rx (parent uf2)\<rparr>)
          \<and> (int_at (rank uf) rx = int_at (rank uf) ry \<longrightarrow>
                uf' = uf2\<lparr>parent := fmupd ry rx (parent uf2),
                          rank := fmupd rx (int_at (rank uf) rx + 1) (rank uf2)\<rparr>)
          \<and> uf_inv uf'
          \<and> (\<exists>r u1 u2. Find uf' a = Some (r, u1) \<and> Find uf' b = Some (r, u2))
          \<and> (\<exists>u3. Union_uf uf' a b = Some (False, u3) \<and> rank u3 = rank uf'
                \<and> same_roots (parent uf') (parent u3))))"
proof -
  obtain rx ry where rx: "root_of (parent uf) a rx" and ry: "root_of (parent uf) b ry"
    using assms unfolding uf_inv_def by blast
  obtain uf1 uf2 where f: "Find uf a = Some (rx, uf1)" "Find uf1 b = Some (ry, uf2)"
    and rk: "rank uf2 = rank uf" and sr: "same_roots (parent uf) (parent uf2)"
    using Find_two [OF rx ry] by blast
  have u: "Union_uf uf a b = (if rx = ry then Some (False, uf2) else Some (True, link uf2 rx ry))"
    using f by (rule Union_uf_eq)
  have inv2: "uf_inv uf2"
    using assms sr by (rule uf_inv_same_roots)
  have "uf_inv (link uf2 rx ry)
      \<and> (\<exists>r u1 u2. Find (link uf2 rx ry) a = Some (r, u1) \<and> Find (link uf2 rx ry) b = Some (r, u2))
      \<and> (\<exists>u3. Union_uf (link uf2 rx ry) a b = Some (False, u3) \<and> rank u3 = rank (link uf2 rx ry)
            \<and> same_roots (parent (link uf2 rx ry)) (parent u3))"
    if ne: "rx \<noteq> ry"
  proof -
    let ?l = "link uf2 rx ry"
    have r2: "int_at (parent uf2) rx = rx" "int_at (parent uf2) ry = ry"
      using rx ry sr root_of_is_root unfolding same_roots_def by blast+
    have a2: "root_of (parent uf2) a rx" and b2: "root_of (parent uf2) b ry"
      using rx ry sr unfolding same_roots_def by blast+
    obtain c d where cd: "c = rx \<and> d = ry \<or> c = ry \<and> d = rx"
      and lr: "\<And>z s. root_of (parent ?l) z s \<longleftrightarrow>
           (\<exists>t. root_of (parent uf2) z t \<and> s = (if t = c then d else t))"
      using link_roots [OF r2 ne] by blast
    have "root_of (parent ?l) a (if rx = c then d else rx)"
      using lr a2 by blast
    then have la: "root_of (parent ?l) a d"
      using cd ne by (auto split: if_splits)
    have "root_of (parent ?l) b (if ry = c then d else ry)"
      using lr b2 by blast
    then have lb: "root_of (parent ?l) b d"
      using cd ne by (auto split: if_splits)
    have inv: "uf_inv ?l"
      using inv2 r2 ne by (rule uf_inv_link)
    obtain u1 where u1: "Find ?l a = Some (d, u1)"
      using Find_root_of [OF la] by blast
    obtain u2 where u2: "Find ?l b = Some (d, u2)"
      using Find_root_of [OF lb] by blast
    obtain v1 v2 where v: "Find ?l a = Some (d, v1)" "Find v1 b = Some (d, v2)"
      "rank v2 = rank ?l" "same_roots (parent ?l) (parent v2)"
      using Find_two [OF la lb] by blast
    have "Union_uf ?l a b = Some (False, v2)"
      using Union_uf_eq [OF v(1) v(2)] by simp
    then show ?thesis
      using inv u1 u2 v(3) v(4) by blast
  qed
  moreover have "rx \<noteq> ry \<Longrightarrow> Union_uf uf a b = Some (True, link uf2 rx ry)"
    using u by simp
  moreover have "rx = ry \<Longrightarrow> Union_uf uf a b = Some (False, uf2)"
    using u by simp
  ultimately have tail: "rx \<noteq> ry \<longrightarrow>
         (\<exists>uf'. Union_uf uf a b = Some (True, uf')
          \<and> (int_at (rank uf) rx <s int_at (rank uf) ry \<longrightarrow>
                uf' = uf2\<lparr>parent := fmupd rx ry (parent uf2)\<rparr>)
          \<and> (int_at (rank uf) ry <s int_at (rank uf) rx \<longrightarrow>
                uf' = uf2\<lparr>parent := fmupd ry rx (parent uf2)\<rparr>)
          \<and> (int_at (rank uf) rx = int_at (rank uf) ry \<longrightarrow>
                uf' = uf2\<lparr>parent := fmupd ry rx (parent uf2),
                          rank := fmupd rx (int_at (rank uf) rx + 1) (rank uf2)\<rparr>)
          \<and> uf_inv uf'
          \<and> (\<exists>r u1 u2. Find uf' a = Some (r, u1) \<and> Find uf' b = Some (r, u2))
          \<and> (\<exists>u3. Union_uf uf' a b = Some (False, u3) \<and> rank u3 = rank uf'
                \<and> same_roots (parent uf') (parent u3)))"
    using link_cases [of uf2 rx ry] rk
    by (intro impI exI [where x = "link uf2 rx ry"]) simp
  have head: "rx = ry \<longrightarrow> Union_uf uf a b = Some (False, uf2)"
    using u by simp
  show ?thesis
    apply (rule exI [where x = rx])
    apply (rule exI [where x = ry])
    apply (rule exI [where x = uf2])
    using rx ry f rk sr head tail apply blast
    done
qed

definition four_sets :: UnionFind where
  "four_sets = MakeSet (MakeSet (MakeSet (MakeSet NewUnionFind 1) 2) 3) 4"

lemma uf_inv_four_sets: "uf_inv four_sets"
  unfolding four_sets_def by (intro uf_inv_MakeSet uf_inv_New)

theorem Union_uf_spec_witness:
  "uf_inv four_sets \<and> Union_uf four_sets 3 4 \<noteq> None \<and> Union_uf four_sets 3 3 \<noteq> None"
  using Union_uf_spec [OF uf_inv_four_sets, of 3 4] Union_uf_spec [OF uf_inv_four_sets, of 3 3]
    uf_inv_four_sets
  by (metis option.distinct(1))

text \<open>
  C6 as stated fails: a repeated \<^verbatim>\<open>Union(1, 4)\<close> returns false but is not free of
  structural mutation, since its \<^verbatim>\<open>Find(4)\<close> re-points element 4 from its parent 3
  to the root 1.
\<close>

theorem Union_uf_repeat_counterexample:
  "do {
     (b1, s1) \<leftarrow> Union_uf four_sets 3 4;
     (b2, s2) \<leftarrow> Union_uf s1 1 2;
     (b3, s3) \<leftarrow> Union_uf s2 1 4;
     (b4, s4) \<leftarrow> Union_uf s3 1 4;
     Some (b3, b4, fmlookup (parent s3) 4, fmlookup (parent s4) 4)
   } = Some (True, False, Some 3, Some 1)"
  by code_simp


section \<open>Priority queue, Prim, Kruskal and the connectivity check\<close>

text \<open>
  A call either returns or panics.  \<^verbatim>\<open>panic(msg)\<close> aborts the calling goroutine; it is
  the value \<open>Inl (Panic msg)\<close> of a result type \<open>failure + 'r\<close>.
\<close>

datatype failure = Panic string

text \<open>
  \<^verbatim>\<open>type PriorityQueue []*Edge\<close> with its methods \<^verbatim>\<open>Len\<close>, \<^verbatim>\<open>Less\<close>,
  \<^verbatim>\<open>Swap\<close>, \<^verbatim>\<open>Push\<close> and \<^verbatim>\<open>Pop\<close>.
\<close>

type_synonym 'a PriorityQueue = "'a Edge list"

definition pq_Len :: "'a PriorityQueue \<Rightarrow> nat" where
  "pq_Len pq = length pq"

definition pq_Less :: "'a PriorityQueue \<Rightarrow> nat \<Rightarrow> nat \<Rightarrow> bool" where
  "pq_Less pq i j = (Weight (pq ! i) <s Weight (pq ! j))"

definition pq_Swap :: "'a PriorityQueue \<Rightarrow> nat \<Rightarrow> nat \<Rightarrow> 'a PriorityQueue" where
  "pq_Swap pq i j = pq[i := pq ! j, j := pq ! i]"

definition pq_Push :: "'a PriorityQueue \<Rightarrow> 'a Edge \<Rightarrow> 'a PriorityQueue" where
  "pq_Push pq x = pq @ [x]"

definition pq_Pop :: "'a PriorityQueue \<Rightarrow> 'a Edge \<times> 'a PriorityQueue" where
  "pq_Pop old = (let n = length old in (old ! (n - 1), take (n - 1) old))"

text \<open>
  The functions \<^verbatim>\<open>up\<close>, \<^verbatim>\<open>down\<close>, \<^verbatim>\<open>Init\<close>, \<^verbatim>\<open>Push\<close> and \<^verbatim>\<open>Pop\<close> of
  Go's \<^verbatim>\<open>container/heap\<close>, which drive the methods above.  Indices are natural
  numbers; in \<^verbatim>\<open>up\<close> the parent \<^verbatim>\<open>(j - 1) / 2\<close> of the root is the root itself, as
  Go's division truncates towards zero.  \<^verbatim>\<open>down\<close> also reports whether the element
  moved; no caller here reads that.
\<close>

function heap_up :: "'a PriorityQueue \<Rightarrow> nat \<Rightarrow> 'a PriorityQueue" where
  "heap_up h j =
     (let i = (j - 1) div 2 in
      if i = j \<or> \<not> pq_Less h j i then h
      else heap_up (pq_Swap h i j) i)"
  by pat_completeness auto
termination
  by (relation "measure (\<lambda>(h, j). j)") auto

declare heap_up.simps [simp del]

function heap_down :: "'a PriorityQueue \<Rightarrow> nat \<Rightarrow> nat \<Rightarrow> 'a PriorityQueue" where
  "heap_down h i n =
     (let j1 = 2 * i + 1 in
      if j1 \<ge> n then h
      else let j = (if j1 + 1 < n \<and> pq_Less h (j1 + 1) j1 then j1 + 1 else j1) in
        if \<not> pq_Less h j i then h
        else heap_down (pq_Swap h i j) j n)"
  by pat_completeness auto
termination
  by (relation "measure (\<lambda>(h, i, n). n - i)") (auto split: if_splits)

declare heap_down.simps [simp del]

definition heap_Init :: "'a PriorityQueue \<Rightarrow> 'a PriorityQueue" where
  "heap_Init h = (let n = pq_Len h in fold (\<lambda>i h. heap_down h i n) (rev [0 ..< n div 2]) h)"

definition heap_Push :: "'a PriorityQueue \<Rightarrow> 'a Edge \<Rightarrow> 'a PriorityQueue" where
  "heap_Push h x = (let h1 = pq_Push h x in heap_up h1 (pq_Len h1 - 1))"

definition heap_Pop :: "'a PriorityQueue \<Rightarrow> failure + 'a Edge \<times> 'a PriorityQueue" where
  "heap_Pop h =
     (if pq_Len h = 0 then Inl (Panic ''index out of range'')
      else let n = pq_Len h - 1;
               h1 = pq_Swap h 0 n;
               h2 = heap_down h1 0 n
           in Inr (pq_Pop h2))"

lemma length_pq_Swap [simp]: "length (pq_Swap h i j) = length h"
  by (simp add: pq_Swap_def)

lemma length_heap_up [simp]: "length (heap_up h j) = length h"
  by (induction h j rule: heap_up.induct) (subst heap_up.simps, simp add: Let_def)

lemma length_heap_down [simp]: "length (heap_down h i n) = length h"
  by (induction h i n rule: heap_down.induct) (subst heap_down.simps, simp add: Let_def)


lemma heap_Pop_length:
  "heap_Pop h = Inr (e, h') \<Longrightarrow> length h' = length h - 1"
  by (auto simp: heap_Pop_def pq_Pop_def pq_Len_def Let_def split: if_splits)

lemma length_heap_Push [simp]: "length (heap_Push h x) = Suc (length h)"
  by (simp add: heap_Push_def pq_Push_def pq_Len_def Let_def)

text \<open>A read \<^verbatim>\<open>visited[k]\<close> of a \<^verbatim>\<open>map[int]bool\<close>: false for a missing key.\<close>

definition is_visited :: "(go_int, bool) fmap \<Rightarrow> go_int \<Rightarrow> bool" where
  "is_visited visited k = (case fmlookup visited k of Some b \<Rightarrow> b | None \<Rightarrow> False)"

text \<open>The inner loop of \<^verbatim>\<open>Prim\<close>: push the edges of the new vertex whose target is unvisited.\<close>

definition push_unvisited ::
  "(go_int, bool) fmap \<Rightarrow> 'a Edge list \<Rightarrow> 'a PriorityQueue \<Rightarrow> 'a PriorityQueue" where
  "push_unvisited visited edges pq =
     fold (\<lambda>nextEdge pq. if \<not> is_visited visited (ID (To nextEdge)) then heap_Push pq nextEdge else pq)
       edges pq"

text \<open>The main loop of \<^verbatim>\<open>Prim\<close>.\<close>

function prim_loop ::
  "'a Graph \<Rightarrow> 'a PriorityQueue \<Rightarrow> 'a Edge list \<Rightarrow> go_int \<Rightarrow> (go_int, bool) fmap
    \<Rightarrow> failure + 'a Edge list \<times> go_int" where
  "prim_loop g pq mst totalWeight visited =
     (if pq_Len pq > 0 \<and> int (length mst) < VertexCount g - 1 then
        case heap_Pop pq of
          Inl e \<Rightarrow> Inl e
        | Inr (edge, pq1) \<Rightarrow>
            if is_visited visited (ID (To edge)) then prim_loop g pq1 mst totalWeight visited
            else
              let mst1 = mst @ [edge];
                  totalWeight1 = totalWeight + Weight edge;
                  visited1 = fmupd (ID (To edge)) True visited;
                  toVertex = vertex_at g (ID (To edge));
                  pq2 = push_unvisited visited1 (Edges toVertex) pq1
              in prim_loop g pq2 mst1 totalWeight1 visited1
      else Inr (mst, totalWeight))"
  by pat_completeness auto
termination
  by (relation "measures [\<lambda>(g, pq, mst, t, v). nat (VertexCount g - 1 - int (length mst)),
                          \<lambda>(g, pq, mst, t, v). length pq]")
     (auto simp: pq_Len_def dest!: heap_Pop_length)

declare prim_loop.simps [simp del]

text \<open>
  \<^verbatim>\<open>func (g *Graph) Prim(startID int) ([]*Edge, int)\<close>: the returned slice (\<open>None\<close>
  is the \<^verbatim>\<open>nil\<close> slice), the total weight, and the graph after the call.
\<close>

definition Prim :: "'a Graph \<Rightarrow> go_int \<Rightarrow> failure + ('a Edge list option \<times> go_int) \<times> 'a Graph" where
  "Prim g startID =
     (if Directed g then Inl (Panic ''Prim algorithm only works for undirected graphs'')
      else case fmlookup (Vertices g) startID of
        None \<Rightarrow> Inr ((None, 0), g)
      | Some start \<Rightarrow>
          let visited = fmupd (ID start) True fmempty;
              pq = fold (\<lambda>edge pq. heap_Push pq edge) (Edges start) (heap_Init [])
          in case prim_loop g pq [] 0 visited of
               Inl e \<Rightarrow> Inl e
             | Inr (mst, totalWeight) \<Rightarrow> Inr ((Some mst, totalWeight), g))"

text \<open>The loop of \<^verbatim>\<open>Kruskal\<close> over the sorted edges; \<open>n\<close> is \<^verbatim>\<open>g.VertexCount()\<close>.\<close>

fun kruskal_loop ::
  "int \<Rightarrow> 'a Edge list \<Rightarrow> UnionFind \<Rightarrow> 'a Edge list \<Rightarrow> go_int
    \<Rightarrow> (UnionFind \<times> 'a Edge list \<times> go_int) option" where
  "kruskal_loop n [] uf mst totalWeight = Some (uf, mst, totalWeight)"
| "kruskal_loop n (edge # edges) uf mst totalWeight =
     do {
       (merged, uf1) \<leftarrow> Union_uf uf (ID (From edge)) (ID (To edge));
       if merged then
         let mst1 = mst @ [edge]; totalWeight1 = totalWeight + Weight edge in
         if int (length mst1) = n - 1 then Some (uf1, mst1, totalWeight1)
         else kruskal_loop n edges uf1 mst1 totalWeight1
       else kruskal_loop n edges uf1 mst totalWeight
     }"

text \<open>
  \<^verbatim>\<open>func (g *Graph) Kruskal() ([]*Edge, int)\<close>.  Two things the source leaves to the
  Go runtime are parameters: \<open>sort_Slice\<close> is the library function \<^verbatim>\<open>sort.Slice\<close>
  applied to the comparison it is given, and \<open>ids\<close> is the order in which
  \<^verbatim>\<open>for id := range g.Vertices\<close> yields the keys.  The result is the returned slice,
  the total weight, and the graph after the call; \<open>None\<close> would be a \<^verbatim>\<open>Find\<close> that
  does not return.
\<close>

definition Kruskal ::
  "(('a Edge \<Rightarrow> 'a Edge \<Rightarrow> bool) \<Rightarrow> 'a Edge list \<Rightarrow> 'a Edge list) \<Rightarrow> go_int list \<Rightarrow> 'a Graph
    \<Rightarrow> (failure + ('a Edge list \<times> go_int) \<times> 'a Graph) option" where
  "Kruskal sort_Slice ids g =
     (if Directed g then Some (Inl (Panic ''Kruskal algorithm only works for undirected graphs''))
      else do {
        let edges = sort_Slice (\<lambda>a b. Weight a <s Weight b) (GEdges g);
        let uf = fold (\<lambda>k uf. MakeSet uf k) ids NewUnionFind;
        (uf1, mst, totalWeight) \<leftarrow> kruskal_loop (VertexCount g) edges uf [] 0;
        Some (Inr ((mst, totalWeight), g))
      })"





text \<open>\<^verbatim>\<open>func (g *Graph) dfs(nodeID int, visited map[int]bool)\<close> and its loop over the edges.\<close>

function dfs :: "'a Graph \<Rightarrow> go_int \<Rightarrow> (go_int, bool) fmap \<Rightarrow> (go_int, bool) fmap"
  and dfs_edges :: "'a Graph \<Rightarrow> 'a Edge list \<Rightarrow> (go_int, bool) fmap \<Rightarrow> (go_int, bool) fmap" where
  "dfs g nodeID visited = dfs_edges g (Edges (vertex_at g nodeID)) (fmupd nodeID True visited)"
| "dfs_edges g [] visited = visited"
| "dfs_edges g (edge # edges) visited =
     dfs_edges g edges
       (if \<not> is_visited visited (ID (To edge)) then dfs g (ID (To edge)) visited else visited)"
  by pat_completeness auto

text \<open>The identities marked in a \<^verbatim>\<open>visited\<close> map.\<close>

definition visited_set :: "(go_int, bool) fmap \<Rightarrow> go_int set" where
  "visited_set visited = {k. is_visited visited k}"

lemma visited_set_upd [simp]: "visited_set (fmupd k True visited) = insert k (visited_set visited)"
  by (auto simp: visited_set_def is_visited_def)

lemma dfs_grows_partial:
  "dfs_dfs_edges_dom (Inl (g, nodeID, visited)) \<Longrightarrow>
     insert nodeID (visited_set visited) \<subseteq> visited_set (dfs g nodeID visited)"
  "dfs_dfs_edges_dom (Inr (g, edges, visited)) \<Longrightarrow>
     visited_set visited \<subseteq> visited_set (dfs_edges g edges visited)"
proof (induction g nodeID visited and g edges visited rule: dfs_dfs_edges.pinduct)
  case (1 g nodeID visited)
  then show ?case by (simp add: dfs.psimps)
next
  case (2 g visited)
  then show ?case by (simp add: dfs_edges.psimps)
next
  case (3 g edge edges visited)
  then show ?case
    by (auto simp: dfs_edges.psimps split: if_splits)
qed

text \<open>Every identity a traversal of the graph can meet.\<close>

definition universe :: "'a Graph \<Rightarrow> go_int set" where
  "universe g = fmdom' (Vertices g) \<union> (\<Union>v \<in> fmran' (Vertices g). (\<lambda>e. ID (To e)) ` set (Edges v))"

lemma finite_universe: "finite (universe g)"
  by (simp add: universe_def fmran'_alt_def)

lemma adjacency_universe: "e \<in> set (Edges (vertex_at g k)) \<Longrightarrow> ID (To e) \<in> universe g"
  by (auto simp: vertex_at_def universe_def zero_Vertex_def fmran'I split: option.splits)

definition dfs_measure :: "'a Graph \<times> go_int \<times> (go_int, bool) fmap + 'a Graph \<times> 'a Edge list \<times> (go_int, bool) fmap
    \<Rightarrow> nat \<times> nat" where
  "dfs_measure x =
     (case x of
        Inl (g, nodeID, visited) \<Rightarrow>
          (card (universe g - insert nodeID (visited_set visited)),
           Suc (length (Edges (vertex_at g nodeID))))
      | Inr (g, edges, visited) \<Rightarrow>
          (card ((universe g \<union> (\<lambda>e. ID (To e)) ` set edges) - visited_set visited),
           length edges))"

termination dfs
proof (relation "inv_image (less_than <*lex*> less_than) dfs_measure")
  show "wf (inv_image (less_than <*lex*> less_than) dfs_measure)"
    by (intro wf_inv_image wf_lex_prod wf_less_than)
next
  fix g :: "'a Graph" and nodeID visited
  have "universe g \<union> (\<lambda>e. ID (To e)) ` set (Edges (vertex_at g nodeID)) = universe g"
    using adjacency_universe by blast
  then show "(Inr (g, Edges (vertex_at g nodeID), fmupd nodeID True visited), Inl (g, nodeID, visited))
        \<in> inv_image (less_than <*lex*> less_than) dfs_measure"
    by (simp add: dfs_measure_def)
next
  fix g :: "'a Graph" and edge :: "'a Edge" and edges :: "'a Edge list" and visited
  assume "\<not> is_visited visited (ID (To edge))"
  then have "universe g - insert (ID (To edge)) (visited_set visited)
      \<subset> (universe g \<union> (\<lambda>e. ID (To e)) ` set (edge # edges)) - visited_set visited"
    by (auto simp: visited_set_def)
  then have "card (universe g - insert (ID (To edge)) (visited_set visited))
      < card ((universe g \<union> (\<lambda>e. ID (To e)) ` set (edge # edges)) - visited_set visited)"
    by (intro psubset_card_mono) (simp_all add: finite_universe)
  then show "(Inl (g, ID (To edge), visited), Inr (g, edge # edges, visited))
        \<in> inv_image (less_than <*lex*> less_than) dfs_measure"
    by (simp add: dfs_measure_def)
next
  fix g :: "'a Graph" and edge :: "'a Edge" and edges :: "'a Edge list" and visited
  assume dom: "\<not> is_visited visited (ID (To edge)) \<Longrightarrow> dfs_dfs_edges_dom (Inl (g, ID (To edge), visited))"
  let ?v = "if \<not> is_visited visited (ID (To edge)) then dfs g (ID (To edge)) visited else visited"
  have "visited_set visited \<subseteq> visited_set ?v"
    using dfs_grows_partial(1) [OF dom] by auto
  then have "(universe g \<union> (\<lambda>e. ID (To e)) ` set edges) - visited_set ?v
      \<subseteq> (universe g \<union> (\<lambda>e. ID (To e)) ` set (edge # edges)) - visited_set visited"
    by auto
  then have "card ((universe g \<union> (\<lambda>e. ID (To e)) ` set edges) - visited_set ?v)
      \<le> card ((universe g \<union> (\<lambda>e. ID (To e)) ` set (edge # edges)) - visited_set visited)"
    by (intro card_mono) (simp_all add: finite_universe)
  then show "(Inr (g, edges, ?v), Inr (g, edge # edges, visited))
        \<in> inv_image (less_than <*lex*> less_than) dfs_measure"
    by (auto simp: dfs_measure_def)
qed

declare dfs.simps [simp del]
declare dfs_edges.simps(2) [simp del]

text \<open>
  \<^verbatim>\<open>func (g *Graph) IsConnected() bool\<close>; \<open>ids\<close> is again the order in which the
  range over \<^verbatim>\<open>g.Vertices\<close> yields the keys, of which the first is taken.
\<close>

definition IsConnected :: "go_int list \<Rightarrow> 'a Graph \<Rightarrow> bool \<times> 'a Graph" where
  "IsConnected ids g =
     (if VertexCount g = 0 then (True, g)
      else
        let startID = (case ids of [] \<Rightarrow> 0 | k # _ \<Rightarrow> k);
            visited = dfs g startID fmempty
        in (int (fcard (fmdom visited)) = VertexCount g, g))"


text \<open>What \<^verbatim>\<open>sort.Slice\<close> promises for the comparison by weight: a permutation, in which no
  later element is less than an earlier one.\<close>

definition sorts_by_weight ::
  "(('a Edge \<Rightarrow> 'a Edge \<Rightarrow> bool) \<Rightarrow> 'a Edge list \<Rightarrow> 'a Edge list) \<Rightarrow> bool" where
  "sorts_by_weight sort_Slice =
     (\<forall>es. mset (sort_Slice (\<lambda>a b. Weight a <s Weight b) es) = mset es
        \<and> sorted_wrt (\<lambda>a b. \<not> Weight b <s Weight a) (sort_Slice (\<lambda>a b. Weight a <s Weight b) es))"

text \<open>What a range over the vertex map yields: every key once.\<close>

definition iteration_order :: "'a Graph \<Rightarrow> go_int list \<Rightarrow> bool" where
  "iteration_order g ids = (distinct ids \<and> set ids = fset (fmdom (Vertices g)))"

text \<open>Endpoints and weight of an edge, for reading results.\<close>

definition edge_triple :: "'a Edge \<Rightarrow> go_int \<times> go_int \<times> go_int" where
  "edge_triple e = (ID (From e), ID (To e), Weight e)"

text \<open>A stable sort by weight.\<close>

definition stable_sort :: "('a Edge \<Rightarrow> 'a Edge \<Rightarrow> bool) \<Rightarrow> 'a Edge list \<Rightarrow> 'a Edge list" where
  "stable_sort lt es = sort_key (\<lambda>e. sint (Weight e)) es"

lemma sorts_by_weight_stable_sort: "sorts_by_weight stable_sort"
proof -
  have "sorted_wrt (\<lambda>a b. sint (Weight a) \<le> sint (Weight b)) (sort_key (\<lambda>e. sint (Weight e)) es)"
    for es :: "'a Edge list"
  proof -
    have "sorted (map (\<lambda>e. sint (Weight e)) (sort_key (\<lambda>e. sint (Weight e)) es))"
      by simp
    then show ?thesis
      by (simp only: sorted_map)
  qed
  then show ?thesis
    unfolding sorts_by_weight_def stable_sort_def
    by (simp add: word_sless_alt not_less)
qed


section \<open>The library sort\<close>

text \<open>
  \<^verbatim>\<open>sort.Slice\<close> of the Go standard library (package \<^verbatim>\<open>sort\<close>, Go 1.19 and later):
  pattern-defeating quicksort on the index range, through \<^verbatim>\<open>Less(i, j)\<close> and
  \<^verbatim>\<open>Swap(i, j)\<close> of the slice.  Indices are Go integers.
\<close>

text \<open>Go's integer division truncates towards zero.\<close>

definition quot :: "int \<Rightarrow> int \<Rightarrow> int" where
  "quot a b = sgn a * sgn b * (\<bar>a\<bar> div \<bar>b\<bar>)"

definition data_Less :: "('a \<Rightarrow> 'a \<Rightarrow> bool) \<Rightarrow> 'a list \<Rightarrow> int \<Rightarrow> int \<Rightarrow> bool" where
  "data_Less lt xs i j = lt (xs ! nat i) (xs ! nat j)"

definition data_Swap :: "'a list \<Rightarrow> int \<Rightarrow> int \<Rightarrow> 'a list" where
  "data_Swap xs i j = xs[nat i := xs ! nat j, nat j := xs ! nat i]"

text \<open>\<^verbatim>\<open>insertionSort_func\<close>: the inner loop moves \<open>data[j]\<close> down, the outer loop runs \<open>i\<close> up.\<close>

function insertion_inner :: "('a \<Rightarrow> 'a \<Rightarrow> bool) \<Rightarrow> 'a list \<Rightarrow> int \<Rightarrow> int \<Rightarrow> 'a list" where
  "insertion_inner lt xs a j =
     (if j > a \<and> data_Less lt xs j (j - 1) then insertion_inner lt (data_Swap xs j (j - 1)) a (j - 1)
      else xs)"
  by pat_completeness auto
termination
  by (relation "measure (\<lambda>(lt, xs, a, j). nat (j - a))") auto

declare insertion_inner.simps [simp del]

function insertion_outer :: "('a \<Rightarrow> 'a \<Rightarrow> bool) \<Rightarrow> 'a list \<Rightarrow> int \<Rightarrow> int \<Rightarrow> int \<Rightarrow> 'a list" where
  "insertion_outer lt xs a b i =
     (if i < b then insertion_outer lt (insertion_inner lt xs a i) a b (i + 1) else xs)"
  by pat_completeness auto
termination
  by (relation "measure (\<lambda>(lt, xs, a, b, i). nat (b - i))") auto

declare insertion_outer.simps [simp del]

definition insertionSort_func :: "('a \<Rightarrow> 'a \<Rightarrow> bool) \<Rightarrow> 'a list \<Rightarrow> int \<Rightarrow> int \<Rightarrow> 'a list" where
  "insertionSort_func lt xs a b = insertion_outer lt xs a b (a + 1)"

text \<open>\<^verbatim>\<open>siftDown_func\<close> and \<^verbatim>\<open>heapSort_func\<close>.\<close>

function siftDown_func :: "('a \<Rightarrow> 'a \<Rightarrow> bool) \<Rightarrow> 'a list \<Rightarrow> int \<Rightarrow> int \<Rightarrow> int \<Rightarrow> 'a list" where
  "siftDown_func lt xs root hi first =
     (let child = 2 * root + 1 in
      if child \<ge> hi \<or> root < 0 then xs
      else
        let child = (if child + 1 < hi \<and> data_Less lt xs (first + child) (first + child + 1)
                     then child + 1 else child)
        in if \<not> data_Less lt xs (first + root) (first + child) then xs
           else siftDown_func lt (data_Swap xs (first + root) (first + child)) child hi first)"
  by pat_completeness auto
termination
  by (relation "measure (\<lambda>(lt, xs, root, hi, first). nat (hi - root))") (auto simp: Let_def)

declare siftDown_func.simps [simp del]

function heap_build :: "('a \<Rightarrow> 'a \<Rightarrow> bool) \<Rightarrow> 'a list \<Rightarrow> int \<Rightarrow> int \<Rightarrow> int \<Rightarrow> 'a list" where
  "heap_build lt xs i hi first =
     (if i \<ge> 0 then heap_build lt (siftDown_func lt xs i hi first) (i - 1) hi first else xs)"
  by pat_completeness auto
termination
  by (relation "measure (\<lambda>(lt, xs, i, hi, first). nat (i + 1))") auto

declare heap_build.simps [simp del]

function heap_drain :: "('a \<Rightarrow> 'a \<Rightarrow> bool) \<Rightarrow> 'a list \<Rightarrow> int \<Rightarrow> int \<Rightarrow> 'a list" where
  "heap_drain lt xs i first =
     (if i \<ge> 0 then heap_drain lt (siftDown_func lt (data_Swap xs first (first + i)) 0 i first) (i - 1) first
      else xs)"
  by pat_completeness auto
termination
  by (relation "measure (\<lambda>(lt, xs, i, first). nat (i + 1))") auto

declare heap_drain.simps [simp del]

definition heapSort_func :: "('a \<Rightarrow> 'a \<Rightarrow> bool) \<Rightarrow> 'a list \<Rightarrow> int \<Rightarrow> int \<Rightarrow> 'a list" where
  "heapSort_func lt xs a b =
     (let first = a; hi = b - a;
          xs1 = heap_build lt xs (quot (hi - 1) 2) hi first
      in heap_drain lt xs1 (hi - 1) first)"


text \<open>
  \<^verbatim>\<open>breakPatterns_func\<close> with its pseudo-random numbers (\<^verbatim>\<open>xorshift\<close>) and
  \<^verbatim>\<open>bits.Len\<close>; \<open>uint\<close> is 64 bits wide.
\<close>

fun bits_Len :: "nat \<Rightarrow> nat" where
  "bits_Len n = (if n = 0 then 0 else Suc (bits_Len (n div 2)))"

declare bits_Len.simps [simp del]

definition xorshift_Next :: "64 word \<Rightarrow> 64 word" where
  "xorshift_Next r =
     (let r1 = xor r (push_bit 13 r);
          r2 = xor r1 (drop_bit 7 r1);
          r3 = xor r2 (push_bit 17 r2)
      in r3)"

definition nextPowerOfTwo :: "int \<Rightarrow> 64 word" where
  "nextPowerOfTwo len = push_bit (bits_Len (nat len)) 1"

fun break_loop :: "nat \<Rightarrow> 'a list \<Rightarrow> int \<Rightarrow> int \<Rightarrow> int \<Rightarrow> 64 word \<Rightarrow> 64 word \<Rightarrow> int \<Rightarrow> 'a list" where
  "break_loop 0 xs a len idx random modulus i = xs"
| "break_loop (Suc n) xs a len idx random modulus i =
     (let random1 = xorshift_Next random;
          other = uint (and random1 (modulus - 1));
          other = (if other \<ge> len then other - len else other)
      in break_loop n (data_Swap xs (idx - 1 + i) (a + other)) a len idx random1 modulus (i + 1))"

definition breakPatterns_func :: "'a list \<Rightarrow> int \<Rightarrow> int \<Rightarrow> 'a list" where
  "breakPatterns_func xs a b =
     (let len = b - a in
      if len \<ge> 8 then
        let random = word_of_int len;
            modulus = nextPowerOfTwo len;
            idx = a + (quot len 4) * 2 - 1
        in break_loop 3 xs a len idx random modulus 0
      else xs)"

text \<open>\<^verbatim>\<open>choosePivot_func\<close> with \<^verbatim>\<open>order2_func\<close>, \<^verbatim>\<open>median_func\<close> and \<^verbatim>\<open>medianAdjacent_func\<close>.\<close>

datatype sortedHint = unknownHint | increasingHint | decreasingHint

definition order2_func :: "('a \<Rightarrow> 'a \<Rightarrow> bool) \<Rightarrow> 'a list \<Rightarrow> int \<Rightarrow> int \<Rightarrow> nat \<Rightarrow> (int \<times> int) \<times> nat" where
  "order2_func lt xs a b swaps =
     (if data_Less lt xs b a then ((b, a), swaps + 1) else ((a, b), swaps))"

definition median_func :: "('a \<Rightarrow> 'a \<Rightarrow> bool) \<Rightarrow> 'a list \<Rightarrow> int \<Rightarrow> int \<Rightarrow> int \<Rightarrow> nat \<Rightarrow> int \<times> nat" where
  "median_func lt xs a b c swaps =
     (let ((a, b), swaps) = order2_func lt xs a b swaps;
          ((b, c), swaps) = order2_func lt xs b c swaps;
          ((a, b), swaps) = order2_func lt xs a b swaps
      in (b, swaps))"

definition medianAdjacent_func :: "('a \<Rightarrow> 'a \<Rightarrow> bool) \<Rightarrow> 'a list \<Rightarrow> int \<Rightarrow> nat \<Rightarrow> int \<times> nat" where
  "medianAdjacent_func lt xs a swaps = median_func lt xs (a - 1) a (a + 1) swaps"

definition choosePivot_func :: "('a \<Rightarrow> 'a \<Rightarrow> bool) \<Rightarrow> 'a list \<Rightarrow> int \<Rightarrow> int \<Rightarrow> int \<times> sortedHint" where
  "choosePivot_func lt xs a b =
     (let l = b - a;
          swaps = 0;
          i = a + quot l 4 * 1;
          j = a + quot l 4 * 2;
          k = a + quot l 4 * 3;
          (j, swaps) =
            (if l \<ge> 8 then
               let (i, j, k, swaps) =
                     (if l \<ge> 50 then
                        let (i, swaps) = medianAdjacent_func lt xs i swaps;
                            (j, swaps) = medianAdjacent_func lt xs j swaps;
                            (k, swaps) = medianAdjacent_func lt xs k swaps
                        in (i, j, k, swaps)
                      else (i, j, k, swaps))
               in median_func lt xs i j k swaps
             else (j, swaps))
      in if swaps = 0 then (j, increasingHint)
         else if swaps = 4 * 3 then (j, decreasingHint)
         else (j, unknownHint))"

text \<open>\<^verbatim>\<open>reverseRange_func\<close>\<close>

function reverse_loop :: "'a list \<Rightarrow> int \<Rightarrow> int \<Rightarrow> 'a list" where
  "reverse_loop xs i j = (if i < j then reverse_loop (data_Swap xs i j) (i + 1) (j - 1) else xs)"
  by pat_completeness auto
termination
  by (relation "measure (\<lambda>(xs, i, j). nat (j - i))") auto

declare reverse_loop.simps [simp del]

definition reverseRange_func :: "'a list \<Rightarrow> int \<Rightarrow> int \<Rightarrow> 'a list" where
  "reverseRange_func xs a b = reverse_loop xs a (b - 1)"


text \<open>\<^verbatim>\<open>partialInsertionSort_func\<close>, with its three inner loops.\<close>

function advance :: "('a \<Rightarrow> 'a \<Rightarrow> bool) \<Rightarrow> 'a list \<Rightarrow> int \<Rightarrow> int \<Rightarrow> int" where
  "advance lt xs b i = (if i < b \<and> \<not> data_Less lt xs i (i - 1) then advance lt xs b (i + 1) else i)"
  by pat_completeness auto
termination
  by (relation "measure (\<lambda>(lt, xs, b, i). nat (b - i))") auto

declare advance.simps [simp del]

function shift_left :: "('a \<Rightarrow> 'a \<Rightarrow> bool) \<Rightarrow> 'a list \<Rightarrow> int \<Rightarrow> 'a list" where
  "shift_left lt xs j =
     (if j \<ge> 1 then
        if \<not> data_Less lt xs j (j - 1) then xs else shift_left lt (data_Swap xs j (j - 1)) (j - 1)
      else xs)"
  by pat_completeness auto
termination
  by (relation "measure (\<lambda>(lt, xs, j). nat j)") auto

declare shift_left.simps [simp del]

function shift_right :: "('a \<Rightarrow> 'a \<Rightarrow> bool) \<Rightarrow> 'a list \<Rightarrow> int \<Rightarrow> int \<Rightarrow> 'a list" where
  "shift_right lt xs b j =
     (if j < b then
        if \<not> data_Less lt xs j (j - 1) then xs else shift_right lt (data_Swap xs j (j - 1)) b (j + 1)
      else xs)"
  by pat_completeness auto
termination
  by (relation "measure (\<lambda>(lt, xs, b, j). nat (b - j))") auto

declare shift_right.simps [simp del]

fun partial_loop :: "nat \<Rightarrow> ('a \<Rightarrow> 'a \<Rightarrow> bool) \<Rightarrow> 'a list \<Rightarrow> int \<Rightarrow> int \<Rightarrow> int \<Rightarrow> 'a list \<times> bool" where
  "partial_loop 0 lt xs a b i = (xs, False)"
| "partial_loop (Suc n) lt xs a b i =
     (let i = advance lt xs b i in
      if i = b then (xs, True)
      else if b - a < 50 then (xs, False)
      else
        let xs = data_Swap xs i (i - 1);
            xs = (if i - a \<ge> 2 then shift_left lt xs (i - 1) else xs);
            xs = (if b - i \<ge> 2 then shift_right lt xs b (i + 1) else xs)
        in partial_loop n lt xs a b i)"

definition partialInsertionSort_func ::
  "('a \<Rightarrow> 'a \<Rightarrow> bool) \<Rightarrow> 'a list \<Rightarrow> int \<Rightarrow> int \<Rightarrow> 'a list \<times> bool" where
  "partialInsertionSort_func lt xs a b = partial_loop 5 lt xs a b (a + 1)"

text \<open>
  The two scans of the partitions: \<^verbatim>\<open>for i <= j && p(i) { i++ }\<close> and
  \<^verbatim>\<open>for i <= j && p(j) { j-- }\<close>.
\<close>

function scan_up :: "(int \<Rightarrow> bool) \<Rightarrow> int \<Rightarrow> int \<Rightarrow> int" where
  "scan_up p i j = (if i \<le> j \<and> p i then scan_up p (i + 1) j else i)"
  by pat_completeness auto
termination
  by (relation "measure (\<lambda>(p, i, j). nat (j + 1 - i))") auto

declare scan_up.simps [simp del]

function scan_down :: "(int \<Rightarrow> bool) \<Rightarrow> int \<Rightarrow> int \<Rightarrow> int" where
  "scan_down p i j = (if i \<le> j \<and> p j then scan_down p i (j - 1) else j)"
  by pat_completeness auto
termination
  by (relation "measure (\<lambda>(p, i, j). nat (j + 1 - i))") auto

declare scan_down.simps [simp del]

lemma scan_up_ge: "i \<le> scan_up p i j"
proof (induction p i j rule: scan_up.induct)
  case (1 p i j)
  then show ?case by (subst scan_up.simps) auto
qed

lemma scan_down_le: "scan_down p i j \<le> j"
proof (induction p i j rule: scan_down.induct)
  case (1 p i j)
  then show ?case by (subst scan_down.simps) auto
qed

lemma scan_down_ge: "min j (i - 1) \<le> scan_down p i j"
proof (induction p i j rule: scan_down.induct)
  case (1 p i j)
  then show ?case by (subst scan_down.simps) auto
qed

text \<open>\<^verbatim>\<open>partitionEqual_func\<close>\<close>

function equal_loop :: "('a \<Rightarrow> 'a \<Rightarrow> bool) \<Rightarrow> 'a list \<Rightarrow> int \<Rightarrow> int \<Rightarrow> int \<Rightarrow> 'a list \<times> int" where
  "equal_loop lt xs a i j =
     (let i = scan_up (\<lambda>i. \<not> data_Less lt xs a i) i j;
          j = scan_down (\<lambda>j. data_Less lt xs a j) i j
      in if i > j then (xs, i)
         else equal_loop lt (data_Swap xs i j) a (i + 1) (j - 1))"
  by pat_completeness auto
termination
proof (relation "measure (\<lambda>(lt, xs, a, i, j). nat (j + 1 - i))", goal_cases)
  case 1
  then show ?case by simp
next
  case (2 lt xs a i j i1 j1)
  have "i \<le> i1" "j1 \<le> j"
    using 2 scan_up_ge scan_down_le by auto
  then show ?case using 2 by auto
qed

declare equal_loop.simps [simp del]

definition partitionEqual_func ::
  "('a \<Rightarrow> 'a \<Rightarrow> bool) \<Rightarrow> 'a list \<Rightarrow> int \<Rightarrow> int \<Rightarrow> int \<Rightarrow> 'a list \<times> int" where
  "partitionEqual_func lt xs a b pivot = equal_loop lt (data_Swap xs a pivot) a (a + 1) (b - 1)"

text \<open>\<^verbatim>\<open>partition_func\<close>: the new position of the pivot and whether nothing had to move.\<close>

function partition_loop :: "('a \<Rightarrow> 'a \<Rightarrow> bool) \<Rightarrow> 'a list \<Rightarrow> int \<Rightarrow> int \<Rightarrow> int \<Rightarrow> 'a list \<times> int" where
  "partition_loop lt xs a i j =
     (let i = scan_up (\<lambda>i. data_Less lt xs i a) i j;
          j = scan_down (\<lambda>j. \<not> data_Less lt xs j a) i j
      in if i > j then (xs, j)
         else partition_loop lt (data_Swap xs i j) a (i + 1) (j - 1))"
  by pat_completeness auto
termination
proof (relation "measure (\<lambda>(lt, xs, a, i, j). nat (j + 1 - i))", goal_cases)
  case 1
  then show ?case by simp
next
  case (2 lt xs a i j i1 j1)
  have "i \<le> i1" "j1 \<le> j"
    using 2 scan_up_ge scan_down_le by auto
  then show ?case using 2 by auto
qed

declare partition_loop.simps [simp del]

definition partition_func ::
  "('a \<Rightarrow> 'a \<Rightarrow> bool) \<Rightarrow> 'a list \<Rightarrow> int \<Rightarrow> int \<Rightarrow> int \<Rightarrow> 'a list \<times> int \<times> bool" where
  "partition_func lt xs a b pivot =
     (let xs = data_Swap xs a pivot;
          i = scan_up (\<lambda>i. data_Less lt xs i a) (a + 1) (b - 1);
          j = scan_down (\<lambda>j. \<not> data_Less lt xs j a) i (b - 1)
      in if i > j then (data_Swap xs j a, j, True)
         else
           let (xs, j) = partition_loop lt (data_Swap xs i j) a (i + 1) (j - 1)
           in (data_Swap xs j a, j, False))"

lemma equal_loop_gt: "i \<le> snd (equal_loop lt xs a i j)"
proof (induction lt xs a i j rule: equal_loop.induct)
  case (1 lt xs a i j)
  define i1 where "i1 = scan_up (\<lambda>i. \<not> data_Less lt xs a i) i j"
  define j1 where "j1 = scan_down (\<lambda>j. data_Less lt xs a j) i1 j"
  have i1: "i \<le> i1" by (simp add: i1_def scan_up_ge)
  show ?case
  proof (cases "i1 > j1")
    case True
    then show ?thesis
      using i1 by (subst equal_loop.simps) (simp add: Let_def i1_def [symmetric] j1_def [symmetric])
  next
    case False
    have "i1 + 1 \<le> snd (equal_loop lt (data_Swap xs i1 j1) a (i1 + 1) (j1 - 1))"
      using "1.IH" [OF i1_def j1_def] False by simp
    then show ?thesis
      using i1 False
      by (subst equal_loop.simps) (simp add: Let_def i1_def [symmetric] j1_def [symmetric])
  qed
qed

lemma partitionEqual_gt: "a < snd (partitionEqual_func lt xs a b pivot)"
  using equal_loop_gt [of "a + 1" lt "data_Swap xs a pivot" a "b - 1"]
  by (simp add: partitionEqual_func_def)

lemma partition_loop_bounds:
  "i - 2 \<le> j \<Longrightarrow> i - 2 \<le> snd (partition_loop lt xs a i j) \<and> snd (partition_loop lt xs a i j) \<le> j"
proof (induction lt xs a i j rule: partition_loop.induct)
  case (1 lt xs a i j)
  define i1 where "i1 = scan_up (\<lambda>i. data_Less lt xs i a) i j"
  define j1 where "j1 = scan_down (\<lambda>j. \<not> data_Less lt xs j a) i1 j"
  have i1: "i \<le> i1" by (simp add: i1_def scan_up_ge)
  have j1: "j1 \<le> j" "min j (i1 - 1) \<le> j1"
    unfolding j1_def by (rule scan_down_le, rule scan_down_ge)
  show ?case
  proof (cases "i1 > j1")
    case True
    then show ?thesis
      using i1 j1 "1.prems"
      by (subst (1 2) partition_loop.simps) (simp add: Let_def i1_def [symmetric] j1_def [symmetric])
  next
    case False
    have "i1 + 1 - 2 \<le> snd (partition_loop lt (data_Swap xs i1 j1) a (i1 + 1) (j1 - 1))
        \<and> snd (partition_loop lt (data_Swap xs i1 j1) a (i1 + 1) (j1 - 1)) \<le> j1 - 1"
      using "1.IH" [OF i1_def j1_def] False by simp
    then show ?thesis
      using i1 j1 False
      by (subst (1 2) partition_loop.simps) (simp add: Let_def i1_def [symmetric] j1_def [symmetric])
  qed
qed

lemma partition_func_bounds:
  assumes "a < b"
  shows "a \<le> fst (snd (partition_func lt xs a b pivot))"
    and "fst (snd (partition_func lt xs a b pivot)) < b"
proof -
  define ys where "ys = data_Swap xs a pivot"
  define i where "i = scan_up (\<lambda>i. data_Less lt ys i a) (a + 1) (b - 1)"
  define j where "j = scan_down (\<lambda>j. \<not> data_Less lt ys j a) i (b - 1)"
  have i: "a + 1 \<le> i" by (simp add: i_def scan_up_ge)
  have j: "j \<le> b - 1" "min (b - 1) (i - 1) \<le> j"
    unfolding j_def by (rule scan_down_le, rule scan_down_ge)
  have eq: "fst (snd (partition_func lt xs a b pivot)) =
      (if i > j then j else snd (partition_loop lt (data_Swap ys i j) a (i + 1) (j - 1)))"
    by (simp add: partition_func_def Let_def ys_def [symmetric] i_def [symmetric] j_def [symmetric]
        split: prod.splits)
  have "a \<le> fst (snd (partition_func lt xs a b pivot))
      \<and> fst (snd (partition_func lt xs a b pivot)) < b"
  proof (cases "i > j")
    case True
    then show ?thesis using eq i j assms by auto
  next
    case False
    have "i + 1 - 2 \<le> snd (partition_loop lt (data_Swap ys i j) a (i + 1) (j - 1))
        \<and> snd (partition_loop lt (data_Swap ys i j) a (i + 1) (j - 1)) \<le> j - 1"
      using False by (intro partition_loop_bounds) simp
    then show ?thesis using eq False i j by auto
  qed
  then show "a \<le> fst (snd (partition_func lt xs a b pivot))"
    and "fst (snd (partition_func lt xs a b pivot)) < b"
    by simp_all
qed


text \<open>
  \<^verbatim>\<open>pdqsort_func\<close>.  The loop of the source is the recursion on the variables it
  carries (\<open>a\<close>, \<open>b\<close>, \<open>limit\<close>, \<open>wasBalanced\<close>, \<open>wasPartitioned\<close>); a call of the
  source starts with both flags true.
\<close>

function pdqsort_func ::
  "('a \<Rightarrow> 'a \<Rightarrow> bool) \<Rightarrow> 'a list \<Rightarrow> int \<Rightarrow> int \<Rightarrow> nat \<Rightarrow> bool \<Rightarrow> bool \<Rightarrow> 'a list" where
  "pdqsort_func lt xs a b limit wasBalanced wasPartitioned =
     (let len = b - a in
      if len \<le> 12 then insertionSort_func lt xs a b
      else if limit = 0 then heapSort_func lt xs a b
      else
        let (xs, limit) =
              (if \<not> wasBalanced then (breakPatterns_func xs a b, limit - 1) else (xs, limit));
            (pivot, hint) = choosePivot_func lt xs a b;
            (xs, pivot, hint) =
              (if hint = decreasingHint
               then (reverseRange_func xs a b, (b - 1) - (pivot - a), increasingHint)
               else (xs, pivot, hint));
            (xs, done) =
              (if wasBalanced \<and> wasPartitioned \<and> hint = increasingHint
               then partialInsertionSort_func lt xs a b else (xs, False))
        in if done then xs
           else if a > 0 \<and> \<not> data_Less lt xs (a - 1) pivot then
             let (xs, mid) = partitionEqual_func lt xs a b pivot
             in pdqsort_func lt xs mid b limit wasBalanced wasPartitioned
           else
             let (xs, mid, alreadyPartitioned) = partition_func lt xs a b pivot;
                 leftLen = mid - a;
                 rightLen = b - mid;
                 balanceThreshold = quot len 8
             in if leftLen < rightLen then
                  pdqsort_func lt (pdqsort_func lt xs a mid limit True True) (mid + 1) b limit
                    (leftLen \<ge> balanceThreshold) alreadyPartitioned
                else
                  pdqsort_func lt (pdqsort_func lt xs (mid + 1) b limit True True) a mid limit
                    (rightLen \<ge> balanceThreshold) alreadyPartitioned)"
  by pat_completeness auto
termination
proof (relation "measure (\<lambda>(lt, xs, a, b, limit, wb, wp). nat (b - a))", goal_cases)
  case 1
  then show ?case by simp
next
  case (2 lt xs a b limit wasBalanced wasPartitioned x xa xb y xaa xab ya xac xad yaa xae yab xaf xag yac xc xd yad)
  have m: "yad = snd (partitionEqual_func lt xag a b xae)"
    using 2(15,16) by (metis snd_conv)
  have "a < yad"
    unfolding m by (rule partitionEqual_gt)
  then show ?case
    using 2(1,2) by simp
next
  case (3 lt xs a b limit wasBalanced wasPartitioned x xa xb y xaa xab ya xac xad yaa xae yab xaf xag yac xah xai yad xaj yae xak xal xam)
  have m: "xaj = fst (snd (partition_func lt xag a b xae))"
    using 3(15,16,17) by (metis fst_conv snd_conv)
  have "a < b"
    using 3(1,2) by simp
  then have "a \<le> xaj" "xaj < b"
    unfolding m by (rule partition_func_bounds)+
  then show ?case by simp
next
  case (4 lt xs a b limit wasBalanced wasPartitioned x xa xb y xaa xab ya xac xad yaa xae yab xaf xag yac xah xai yad xaj yae xak xal xam)
  have m: "xaj = fst (snd (partition_func lt xag a b xae))"
    using 4(15,16,17) by (metis fst_conv snd_conv)
  have "a < b"
    using 4(1,2) by simp
  then have "a \<le> xaj" "xaj < b"
    unfolding m by (rule partition_func_bounds)+
  then show ?case by simp
next
  case (5 lt xs a b limit wasBalanced wasPartitioned x xa xb y xaa xab ya xac xad yaa xae yab xaf xag yac xah xai yad xaj yae xak xal xam)
  have m: "xaj = fst (snd (partition_func lt xag a b xae))"
    using 5(15,16,17) by (metis fst_conv snd_conv)
  have "a < b"
    using 5(1,2) by simp
  then have "a \<le> xaj" "xaj < b"
    unfolding m by (rule partition_func_bounds)+
  then show ?case by simp
next
  case (6 lt xs a b limit wasBalanced wasPartitioned x xa xb y xaa xab ya xac xad yaa xae yab xaf xag yac xah xai yad xaj yae xak xal xam)
  have m: "xaj = fst (snd (partition_func lt xag a b xae))"
    using 6(15,16,17) by (metis fst_conv snd_conv)
  have "a < b"
    using 6(1,2) by simp
  then have "a \<le> xaj" "xaj < b"
    unfolding m by (rule partition_func_bounds)+
  then show ?case by simp
qed

declare pdqsort_func.simps [simp del]

text \<open>
  \<^verbatim>\<open>func Slice(x any, less func(i, j int) bool)\<close>, for a comparison that compares
  the elements at the two indices.
\<close>

definition go_sort_Slice :: "('a \<Rightarrow> 'a \<Rightarrow> bool) \<Rightarrow> 'a list \<Rightarrow> 'a list" where
  "go_sort_Slice lt xs =
     (let n = length xs; limit = bits_Len n
      in pdqsort_func lt xs 0 (int n) limit True True)"

section \<open>Example graphs\<close>

text \<open>The triangle A(0), B(1), C(2) with A--B 4, B--C 2, A--C 3, built as a caller would.\<close>

definition vA :: "unit Vertex" where "vA = Vertex 0 ''A'' None []"
definition vB :: "unit Vertex" where "vB = Vertex 1 ''B'' None []"
definition vC :: "unit Vertex" where "vC = Vertex 2 ''C'' None []"

definition triangle :: "unit Graph" where
  "triangle =
     snd (AddEdge (snd (AddEdge (snd (AddEdge (NewGraph False)
       (Edge vA vB 4 None))) (Edge vB vC 2 None))) (Edge vA vC 3 None))"

section \<open>Claims about graph construction\<close>

text \<open>
  C7.  On an undirected graph, \<^verbatim>\<open>AddEdge\<close> appends the canonical forward edge to the
  global edge sequence (so \<^verbatim>\<open>EdgeCount\<close> grows by exactly one), appends that same
  edge to the adjacency of the source vertex, and appends its reverse, which carries the
  same weight and payload, to the adjacency of the target vertex; when source and target
  are the same vertex that vertex receives both entries; no other adjacency changes.
\<close>

theorem AddEdge_undirected:
  assumes "keyed g" and "\<not> Directed g"
  shows "GEdges (snd (AddEdge g edge)) = GEdges g @ [fst (AddEdge g edge)]
    \<and> EdgeCount (snd (AddEdge g edge)) = EdgeCount g + 1
    \<and> ID (From (fst (AddEdge g edge))) = ID (From edge)
    \<and> ID (To (fst (AddEdge g edge))) = ID (To edge)
    \<and> Weight (fst (AddEdge g edge)) = Weight edge
    \<and> EData (fst (AddEdge g edge)) = EData edge
    \<and> Reverse (fst (AddEdge g edge)) =
        Edge (To (fst (AddEdge g edge))) (From (fst (AddEdge g edge))) (Weight edge) (EData edge)
    \<and> (ID (From edge) \<noteq> ID (To edge) \<longrightarrow>
          adjacency (snd (AddEdge g edge)) (ID (From edge)) =
            Edges (resolve g (From edge)) @ [fst (AddEdge g edge)]
        \<and> adjacency (snd (AddEdge g edge)) (ID (To edge)) =
            Edges (resolve g (To edge)) @ [Reverse (fst (AddEdge g edge))])
    \<and> (ID (From edge) = ID (To edge) \<longrightarrow>
          adjacency (snd (AddEdge g edge)) (ID (From edge)) =
            Edges (resolve g (From edge)) @ [fst (AddEdge g edge), Reverse (fst (AddEdge g edge))])
    \<and> (\<forall>k. k \<noteq> ID (From edge) \<and> k \<noteq> ID (To edge) \<longrightarrow>
          adjacency (snd (AddEdge g edge)) k = adjacency g k)"
proof -
  let ?g1 = "snd (AddVertex g (From edge))"
  have k1: "keyed ?g1"
    using assms(1) keyed_AddVertex by blast
  have ids: "ID (resolve g (From edge)) = ID (From edge)" "ID (resolve ?g1 (To edge)) = ID (To edge)"
    using assms(1) k1 ID_resolve_keyed by blast+
  have adj2: "adjacency (with_endpoints g edge) k =
      (if k = ID (To edge) then Edges (resolve ?g1 (To edge))
       else if k = ID (From edge) then Edges (resolve g (From edge))
       else adjacency g k)" for k
    by (simp add: adjacency_def with_endpoints_def vertex_at_AddVertex)
  have r: "ID (From edge) \<noteq> ID (To edge) \<Longrightarrow> resolve ?g1 (To edge) = resolve g (To edge)"
    by (simp add: resolve_def AddVertex_snd_lookup)
  have r': "ID (From edge) = ID (To edge) \<Longrightarrow> resolve ?g1 (To edge) = resolve g (From edge)"
    by (auto simp: resolve_def AddVertex_snd_lookup split: option.splits)
  have adj3: "adjacency (g'\<lparr>GEdges := es\<rparr>) k = adjacency g' k" for g' :: "'a Graph" and es k
    by (simp add: adjacency_def vertex_at_GEdges_upd)
  have ge: "GEdges (with_endpoints g edge) = GEdges g"
    by (simp add: with_endpoints_def AddVertex_snd_GEdges)
  show ?thesis
    using assms(2) r r'
    by (simp add: AddEdge_snd [OF assms(1)] AddEdge_fst Let_def GEdges_append_adjacency
        adjacency_append adj2 adj3 EdgeCount_def canonical_def ids Reverse_def ge)
qed


theorem AddEdge_undirected_witness:
  "keyed (NewGraph False :: unit Graph) \<and> \<not> Directed (NewGraph False :: unit Graph)
   \<and> EdgeCount (snd (AddEdge (NewGraph False) (Edge vA vB 4 None))) = 1
   \<and> adjacency (snd (AddEdge (NewGraph False) (Edge vA vB 4 None))) 1 = [Edge vB vA 4 None]"
  using AddEdge_undirected [of "NewGraph False :: unit Graph" "Edge vA vB 4 None"]
  by (simp add: keyed_NewGraph AddEdge_fst canonical_def resolve_def AddVertex_snd_lookup
      Reverse_def)
    (simp add: NewGraph_def EdgeCount_def vA_def vB_def)



section \<open>Failure, order of results, determinism and frame\<close>

lemma Union_uf_result:
  assumes "uf_inv uf"
  shows "\<exists>rx ry uf2. root_of (parent uf) x rx \<and> root_of (parent uf) y ry
     \<and> same_roots (parent uf) (parent uf2) \<and> rank uf2 = rank uf
     \<and> int_at (parent uf2) rx = rx \<and> int_at (parent uf2) ry = ry
     \<and> Union_uf uf x y = (if rx = ry then Some (False, uf2) else Some (True, link uf2 rx ry))"
proof -
  obtain rx ry where rx: "root_of (parent uf) x rx" and ry: "root_of (parent uf) y ry"
    using assms unfolding uf_inv_def by blast
  obtain uf1 uf2 where f: "Find uf x = Some (rx, uf1)" "Find uf1 y = Some (ry, uf2)"
    and rk: "rank uf2 = rank uf" and sr: "same_roots (parent uf) (parent uf2)"
    using Find_two [OF rx ry] by blast
  have r2: "int_at (parent uf2) rx = rx" "int_at (parent uf2) ry = ry"
    using rx ry sr root_of_is_root unfolding same_roots_def by blast+
  show ?thesis
    using rx ry sr rk r2 Union_uf_eq [OF f] by blast
qed

lemma Union_uf_total:
  assumes "uf_inv uf"
  shows "\<exists>b uf'. Union_uf uf x y = Some (b, uf') \<and> uf_inv uf'"
proof -
  obtain rx ry uf2 where sr: "same_roots (parent uf) (parent uf2)"
    and r2: "int_at (parent uf2) rx = rx" "int_at (parent uf2) ry = ry"
    and u: "Union_uf uf x y = (if rx = ry then Some (False, uf2) else Some (True, link uf2 rx ry))"
    using Union_uf_result [OF assms, of x y] by blast
  have inv2: "uf_inv uf2"
    using assms sr by (rule uf_inv_same_roots)
  show ?thesis
  proof (cases "rx = ry")
    case True
    then show ?thesis using u inv2 by auto
  next
    case False
    then show ?thesis using u uf_inv_link [OF inv2 r2 False] by auto
  qed
qed

lemma kruskal_loop_total:
  "uf_inv uf \<Longrightarrow>
   \<exists>uf' acc. kruskal_loop n es uf mst t = Some (uf', mst @ acc, t + sum_list (map Weight acc))
      \<and> subseq acc es \<and> uf_inv uf'"
proof (induction es arbitrary: uf mst t)
  case Nil
  then show ?case by (auto intro: exI [of _ "[]"])
next
  case (Cons e es)
  obtain b uf1 where u: "Union_uf uf (ID (From e)) (ID (To e)) = Some (b, uf1)" and inv1: "uf_inv uf1"
    using Union_uf_total [OF Cons.prems] by blast
  show ?case
  proof (cases b)
    case False
    obtain uf' acc where "kruskal_loop n es uf1 mst t = Some (uf', mst @ acc, t + sum_list (map Weight acc))"
      "subseq acc es" "uf_inv uf'"
      using Cons.IH [OF inv1] by blast
    then show ?thesis
      using u False by (auto intro!: exI [of _ acc])
  next
    case True
    show ?thesis
    proof (cases "int (length (mst @ [e])) = n - 1")
      case stop: True
      have "kruskal_loop n (e # es) uf mst t = Some (uf1, mst @ [e], t + sum_list (map Weight [e]))"
        using u True stop by (simp add: Let_def)
      moreover have "subseq [e] (e # es)" by simp
      ultimately show ?thesis using inv1 by blast
    next
      case go: False
      obtain uf' acc where l: "kruskal_loop n es uf1 (mst @ [e]) (t + Weight e)
           = Some (uf', (mst @ [e]) @ acc, (t + Weight e) + sum_list (map Weight acc))"
        and s: "subseq acc es" and i: "uf_inv uf'"
        using Cons.IH [OF inv1] by blast
      have "kruskal_loop n (e # es) uf mst t = Some (uf', mst @ (e # acc), t + sum_list (map Weight (e # acc)))"
        using u True go l by (simp add: Let_def add.assoc)
      moreover have "subseq (e # acc) (e # es)" using s by simp
      ultimately show ?thesis using i by blast
    qed
  qed
qed

lemma uf_inv_fold_MakeSet: "uf_inv uf \<Longrightarrow> uf_inv (fold (\<lambda>k uf. MakeSet uf k) ids uf)"
  by (induction ids arbitrary: uf) (simp_all add: uf_inv_MakeSet)

lemma Kruskal_returns:
  assumes "\<not> Directed g"
  shows "\<exists>mst. Kruskal sort_Slice ids g = Some (Inr ((mst, sum_list (map Weight mst)), g))
     \<and> subseq mst (sort_Slice (\<lambda>a b. Weight a <s Weight b) (GEdges g))"
proof -
  let ?uf = "fold (\<lambda>k uf. MakeSet uf k) ids NewUnionFind"
  have "uf_inv ?uf"
    by (rule uf_inv_fold_MakeSet) (rule uf_inv_New)
  then obtain uf' acc where
    "kruskal_loop (VertexCount g) (sort_Slice (\<lambda>a b. Weight a <s Weight b) (GEdges g)) ?uf [] 0
       = Some (uf', [] @ acc, 0 + sum_list (map Weight acc))"
    "subseq acc (sort_Slice (\<lambda>a b. Weight a <s Weight b) (GEdges g))"
    using kruskal_loop_total by blast
  then show ?thesis
    using assms by (auto simp: Kruskal_def)
qed

lemma heap_Pop_nonempty: "pq \<noteq> [] \<Longrightarrow> \<exists>e pq'. heap_Pop pq = Inr (e, pq')"
  by (simp add: heap_Pop_def pq_Len_def Let_def pq_Pop_def)

lemma prim_loop_returns: "\<exists>mst' t'. prim_loop g pq mst t visited = Inr (mst', t')"
proof (induction g pq mst t visited rule: prim_loop.induct)
  case (1 g pq mst t visited)
  show ?case
  proof (cases "pq_Len pq > 0 \<and> int (length mst) < VertexCount g - 1")
    case False
    then show ?thesis by (subst prim_loop.simps) auto
  next
    case True
    then obtain e pq1 where p: "heap_Pop pq = Inr (e, pq1)"
      using heap_Pop_nonempty [of pq] by (auto simp: pq_Len_def)
    show ?thesis
    proof (cases "is_visited visited (ID (To e))")
      case v: True
      then show ?thesis
        using "1.IH"(1) [OF True p refl v] True p by (subst prim_loop.simps) simp
    next
      case v: False
      then show ?thesis
        using "1.IH"(2) [OF True p refl v refl refl refl refl refl] True p
        by (subst prim_loop.simps) (simp add: Let_def)
    qed
  qed
qed

lemma Prim_returns:
  assumes "\<not> Directed g"
  shows "\<exists>r. Prim g startID = Inr (r, g)"
proof (cases "fmlookup (Vertices g) startID")
  case None
  then show ?thesis using assms by (simp add: Prim_def)
next
  case (Some start)
  obtain mst t where "prim_loop g (fold (\<lambda>edge pq. heap_Push pq edge) (Edges start) (heap_Init []))
      [] 0 (fmupd (ID start) True fmempty) = Inr (mst, t)"
    using prim_loop_returns by blast
  then show ?thesis using assms Some by (simp add: Prim_def Let_def)
qed


lemma fold_MakeSet_parent:
  "fmlookup (parent (fold (\<lambda>k uf. MakeSet uf k) ids uf)) k =
     (if k \<in> set ids \<and> fmlookup (parent uf) k = None then Some k else fmlookup (parent uf) k)"
  by (induction ids arbitrary: uf) (auto simp: MakeSet_def)

lemma fold_MakeSet_rank:
  "fmlookup (rank (fold (\<lambda>k uf. MakeSet uf k) ids uf)) k =
     (if k \<in> set ids \<and> fmlookup (parent uf) k = None then Some 0 else fmlookup (rank uf) k)"
  by (induction ids arbitrary: uf) (auto simp: MakeSet_def)

lemma fold_MakeSet_order:
  assumes "set ids = set ids'"
  shows "fold (\<lambda>k uf. MakeSet uf k) ids uf = fold (\<lambda>k uf. MakeSet uf k) ids' uf"
proof -
  have "parent (fold (\<lambda>k uf. MakeSet uf k) ids uf) = parent (fold (\<lambda>k uf. MakeSet uf k) ids' uf)"
    by (rule fmap_ext) (simp add: fold_MakeSet_parent assms)
  moreover have "rank (fold (\<lambda>k uf. MakeSet uf k) ids uf) = rank (fold (\<lambda>k uf. MakeSet uf k) ids' uf)"
    by (rule fmap_ext) (simp add: fold_MakeSet_rank assms)
  ultimately show ?thesis
    by simp
qed

lemma Kruskal_order:
  "set ids = set ids' \<Longrightarrow> Kruskal sort_Slice ids g = Kruskal sort_Slice ids' g"
  by (simp add: Kruskal_def fold_MakeSet_order [of ids ids'])

lemma Kruskal_frame: "Kruskal sort_Slice ids g = Some (Inr (r, g')) \<Longrightarrow> g' = g"
  using Kruskal_returns [of g sort_Slice ids]
  by (cases "Directed g") (auto simp: Kruskal_def)

lemma Prim_frame: "Prim g startID = Inr (r, g') \<Longrightarrow> g' = g"
  using Prim_returns [of g startID]
  by (cases "Directed g") (auto simp: Prim_def)

lemma IsConnected_frame: "snd (IsConnected ids g) = g"
  by (simp add: IsConnected_def Let_def)

text \<open>
  C1 (amended).  On a directed graph \<^verbatim>\<open>Kruskal\<close> and \<^verbatim>\<open>Prim\<close> fail at once, before
  anything is computed, by panicking with a message that names the misuse; nothing is
  returned to the caller.
\<close>

theorem directed_panics:
  "Directed g \<Longrightarrow>
     Kruskal sort_Slice ids g = Some (Inl (Panic ''Kruskal algorithm only works for undirected graphs''))
     \<and> Prim g startID = Inl (Panic ''Prim algorithm only works for undirected graphs'')"
  by (simp add: Kruskal_def Prim_def)

theorem directed_panics_witness:
  "Directed (NewGraph True :: unit Graph)
   \<and> Kruskal stable_sort [] (NewGraph True :: unit Graph)
       = Some (Inl (Panic ''Kruskal algorithm only works for undirected graphs''))
   \<and> Prim (NewGraph True :: unit Graph) 0
       = Inl (Panic ''Prim algorithm only works for undirected graphs'')"
  using directed_panics [of "NewGraph True :: unit Graph" stable_sort "[]" 0]
  by (simp add: NewGraph_def)

text \<open>
  C1 as stated fails: on the empty directed graph neither call returns any result, typed
  failure or other; both abort with a panic.
\<close>

theorem directed_not_returned_counterexample:
  "\<not> (\<exists>r. Kruskal stable_sort [] (NewGraph True :: unit Graph) = Some (Inr r))
   \<and> \<not> (\<exists>r. Prim (NewGraph True :: unit Graph) 0 = Inr r)
   \<and> Kruskal stable_sort [] (NewGraph True :: unit Graph)
       = Some (Inl (Panic ''Kruskal algorithm only works for undirected graphs''))
   \<and> Prim (NewGraph True :: unit Graph) 0
       = Inl (Panic ''Prim algorithm only works for undirected graphs'')"
  by (simp add: Kruskal_def Prim_def NewGraph_def)

text \<open>
  C2 (amended).  When the start identity is absent, \<^verbatim>\<open>Prim\<close> on an undirected graph
  returns at once the pair of the \<^verbatim>\<open>nil\<close> slice and weight 0, leaving the graph as it
  was; on a directed graph it panics as for any start.
\<close>

theorem Prim_absent_start:
  "fmlookup (Vertices g) startID = None \<Longrightarrow>
     Prim g startID =
       (if Directed g then Inl (Panic ''Prim algorithm only works for undirected graphs'')
        else Inr ((None, 0), g))"
  by (simp add: Prim_def)

theorem Prim_absent_start_witness:
  "fmlookup (Vertices triangle) 7 = None \<and> Prim triangle 7 = Inr ((None, 0), triangle)"
proof -
  have l: "fmlookup (Vertices triangle) 7 = None"
    by code_simp
  have d: "\<not> Directed triangle"
    by code_simp
  show ?thesis
    using l d Prim_absent_start [OF l] by simp
qed

text \<open>
  C2 as stated fails: on the triangle, whose vertices are 0, 1 and 2, \<^verbatim>\<open>Prim(7)\<close>
  returns normally, with the \<^verbatim>\<open>nil\<close> slice and weight 0, and signals no failure.
\<close>

theorem Prim_absent_start_counterexample:
  "fmlookup (Vertices triangle) 7 = None
   \<and> (\<exists>r. Prim triangle 7 = Inr r)
   \<and> map_sum id fst (Prim triangle 7) = Inr (None, 0)"
proof -
  have l: "fmlookup (Vertices triangle) 7 = None"
    by code_simp
  have d: "\<not> Directed triangle"
    by code_simp
  have "Prim triangle 7 = Inr ((None, 0), triangle)"
    using l d by (simp add: Prim_def)
  then show ?thesis
    using l by simp
qed

text \<open>
  C10.  Whenever \<^verbatim>\<open>Kruskal\<close>, \<^verbatim>\<open>Prim\<close> or \<^verbatim>\<open>IsConnected\<close> returns, the graph
  after the call (vertex map with every adjacency list, global edge sequence, flag) is
  the graph before it; and on an undirected graph \<^verbatim>\<open>Kruskal\<close> and \<^verbatim>\<open>Prim\<close> do
  return.
\<close>

theorem algorithms_frame:
  "(\<forall>r g'. Kruskal sort_Slice ids g = Some (Inr (r, g')) \<longrightarrow> g' = g)
   \<and> (\<forall>r g'. Prim g startID = Inr (r, g') \<longrightarrow> g' = g)
   \<and> snd (IsConnected ids g) = g
   \<and> (\<not> Directed g \<longrightarrow>
        (\<exists>r. Kruskal sort_Slice ids g = Some (Inr (r, g))) \<and> (\<exists>r. Prim g startID = Inr (r, g)))"
  using Kruskal_frame Prim_frame IsConnected_frame Kruskal_returns [of g sort_Slice ids]
    Prim_returns [of g startID]
  by blast

theorem algorithms_frame_witness:
  "\<not> Directed triangle
   \<and> (\<exists>r. Kruskal stable_sort [0, 1, 2] triangle = Some (Inr (r, triangle)))
   \<and> (\<exists>r. Prim triangle 0 = Inr (r, triangle))
   \<and> snd (IsConnected [0, 1, 2] triangle) = triangle"
proof -
  have d: "\<not> Directed triangle"
    by code_simp
  show ?thesis
    using d algorithms_frame [of stable_sort "[0, 1, 2]" triangle 0] by blast
qed


lemma sorted_wrt_subseq: "subseq xs ys \<Longrightarrow> sorted_wrt P ys \<Longrightarrow> sorted_wrt P xs"
proof (induction rule: list_emb.induct)
  case (list_emb_Nil ys)
  then show ?case by simp
next
  case (list_emb_Cons xs ys y)
  then show ?case by simp
next
  case (list_emb_Cons2 x y xs ys)
  then have "set xs \<subseteq> set ys"
    by (auto elim: list_emb_set)
  then show ?case
    using list_emb_Cons2 by auto
qed

text \<open>The sort leaves edges of equal weight in the order they had.\<close>

definition keeps_ties ::
  "(('a Edge \<Rightarrow> 'a Edge \<Rightarrow> bool) \<Rightarrow> 'a Edge list \<Rightarrow> 'a Edge list) \<Rightarrow> 'a Edge list \<Rightarrow> bool" where
  "keeps_ties sort_Slice es =
     (\<forall>w. filter (\<lambda>e. Weight e = w) (sort_Slice (\<lambda>a b. Weight a <s Weight b) es)
            = filter (\<lambda>e. Weight e = w) es)"

lemma keeps_ties_stable_sort: "keeps_ties stable_sort es"
proof -
  have "filter (\<lambda>e. Weight e = w) (sort_key (\<lambda>e. sint (Weight e)) es) = filter (\<lambda>e. Weight e = w) es" for w
  proof -
    have "(\<lambda>e :: 'a Edge. Weight e = w) = (\<lambda>e. sint (Weight e) = sint w)"
      by (auto intro: signed_word_eqI)
    then show ?thesis
      using sort_key_stable [of "\<lambda>e. sint (Weight e)" "sint w" es] by simp
  qed
  then show ?thesis
    by (simp add: keeps_ties_def stable_sort_def)
qed

text \<open>
  C3 (amended).  On an undirected graph \<^verbatim>\<open>Kruskal\<close> sorts a copy of the global edge
  sequence with \<^verbatim>\<open>sort.Slice\<close> and the comparison by weight alone, and returns a
  subsequence of that sorted copy, so the returned edges are in ascending order of weight.
  The order among edges of equal weight is the one the library sort produces: where that
  sort keeps equal weights in their order of insertion, accepted edges of equal weight
  appear in their order of insertion.
\<close>

theorem Kruskal_sorted_order:
  assumes "sorts_by_weight sort_Slice" and "\<not> Directed g"
  shows "\<exists>mst. Kruskal sort_Slice ids g = Some (Inr ((mst, sum_list (map Weight mst)), g))
     \<and> mset (sort_Slice (\<lambda>a b. Weight a <s Weight b) (GEdges g)) = mset (GEdges g)
     \<and> subseq mst (sort_Slice (\<lambda>a b. Weight a <s Weight b) (GEdges g))
     \<and> sorted_wrt (\<lambda>a b. sint (Weight a) \<le> sint (Weight b)) mst
     \<and> (keeps_ties sort_Slice (GEdges g) \<longrightarrow>
          (\<forall>w. subseq (filter (\<lambda>e. Weight e = w) mst) (filter (\<lambda>e. Weight e = w) (GEdges g))))"
proof -
  let ?sorted = "sort_Slice (\<lambda>a b. Weight a <s Weight b) (GEdges g)"
  obtain mst where k: "Kruskal sort_Slice ids g = Some (Inr ((mst, sum_list (map Weight mst)), g))"
    and s: "subseq mst ?sorted"
    using Kruskal_returns [OF assms(2)] by blast
  have m: "mset ?sorted = mset (GEdges g)"
    and o: "sorted_wrt (\<lambda>a b. \<not> Weight b <s Weight a) ?sorted"
    using assms(1) unfolding sorts_by_weight_def by blast+
  have "sorted_wrt (\<lambda>a b. \<not> Weight b <s Weight a) mst"
    using s o by (rule sorted_wrt_subseq)
  then have o': "sorted_wrt (\<lambda>a b. sint (Weight a) \<le> sint (Weight b)) mst"
    by (simp add: word_sless_alt not_less)
  have "subseq (filter (\<lambda>e. Weight e = w) mst) (filter (\<lambda>e. Weight e = w) (GEdges g))"
    if "keeps_ties sort_Slice (GEdges g)" for w
    using subseq_filter [OF s, of "\<lambda>e. Weight e = w"] that by (simp add: keeps_ties_def)
  then show ?thesis
    using k m s o' by blast
qed

theorem Kruskal_sorted_order_witness:
  "sorts_by_weight (stable_sort :: (unit Edge \<Rightarrow> unit Edge \<Rightarrow> bool) \<Rightarrow> _) \<and> \<not> Directed triangle
   \<and> keeps_ties stable_sort (GEdges triangle)
   \<and> (\<exists>mst. Kruskal stable_sort [0, 1, 2] triangle = Some (Inr ((mst, sum_list (map Weight mst)), triangle))
        \<and> sorted_wrt (\<lambda>a b. sint (Weight a) \<le> sint (Weight b)) mst
        \<and> (\<forall>w. subseq (filter (\<lambda>e. Weight e = w) mst) (filter (\<lambda>e. Weight e = w) (GEdges triangle))))"
proof -
  have d: "\<not> Directed triangle"
    by code_simp
  show ?thesis
    using d sorts_by_weight_stable_sort keeps_ties_stable_sort
      Kruskal_sorted_order [OF sorts_by_weight_stable_sort d, of "[0, 1, 2]"]
    by blast
qed

text \<open>
  A path of fourteen vertices \<open>0, ..., 13\<close>: the edges \<open>k -- k+1\<close> are inserted for
  \<open>k = 0, ..., 12\<close> in this order, the first twelve with weight 1 and the last with weight 0.
\<close>

definition path14 :: "unit Graph" where
  "path14 =
     fold (\<lambda>k g. snd (AddEdge g
             (Edge (Vertex (of_nat k) [] None []) (Vertex (of_nat k + 1) [] None [])
                (if k = 12 then 0 else 1) None)))
       [0 ..< 13] (NewGraph False)"

text \<open>
  C3 as stated fails: the comparison passed to \<^verbatim>\<open>sort.Slice\<close> looks at the weight only,
  and \<^verbatim>\<open>sort.Slice\<close> is not stable.  On more than twelve elements it partitions around
  a pivot, and the swaps of the partition carry edges of equal weight past each other: of
  the accepted edges of weight 1, the one inserted seventh comes before the one inserted
  third, and the one inserted second comes last.
\<close>

theorem Kruskal_tie_order_counterexample:
  "map edge_triple (GEdges path14) =
     [(0, 1, 1), (1, 2, 1), (2, 3, 1), (3, 4, 1), (4, 5, 1), (5, 6, 1), (6, 7, 1), (7, 8, 1),
      (8, 9, 1), (9, 10, 1), (10, 11, 1), (11, 12, 1), (12, 13, 0)]
   \<and> map_option (map_sum id (\<lambda>((m, t), g). (map edge_triple m, t)))
        (Kruskal go_sort_Slice [0, 1, 2, 3, 4, 5, 6, 7, 8, 9, 10, 11, 12, 13] path14)
      = Some (Inr ([(12, 13, 0), (6, 7, 1), (2, 3, 1), (3, 4, 1), (4, 5, 1), (5, 6, 1), (0, 1, 1),
                    (7, 8, 1), (8, 9, 1), (9, 10, 1), (10, 11, 1), (11, 12, 1), (1, 2, 1)], 12))"
proof -
  have "map edge_triple (GEdges path14) =
     [(0, 1, 1), (1, 2, 1), (2, 3, 1), (3, 4, 1), (4, 5, 1), (5, 6, 1), (6, 7, 1), (7, 8, 1),
      (8, 9, 1), (9, 10, 1), (10, 11, 1), (11, 12, 1), (12, 13, 0)]"
    by code_simp
  moreover have "map_option (map_sum id (\<lambda>((m, t), g). (map edge_triple m, t)))
        (Kruskal go_sort_Slice [0, 1, 2, 3, 4, 5, 6, 7, 8, 9, 10, 11, 12, 13] path14)
      = Some (Inr ([(12, 13, 0), (6, 7, 1), (2, 3, 1), (3, 4, 1), (4, 5, 1), (5, 6, 1), (0, 1, 1),
                    (7, 8, 1), (8, 9, 1), (9, 10, 1), (10, 11, 1), (11, 12, 1), (1, 2, 1)], 12))"
    by code_simp
  ultimately show ?thesis
    by blast
qed

text \<open>
  C9.  The result of \<^verbatim>\<open>Kruskal\<close> does not depend on the order in which the range over
  the vertex map yields the keys, and a second invocation of \<^verbatim>\<open>Kruskal\<close> or of
  \<^verbatim>\<open>Prim\<close> (with the same start) on the graph the first one left returns the same edge
  sequence and total weight.
\<close>

theorem determinism:
  assumes "iteration_order g ids" and "iteration_order g ids'"
  shows "Kruskal sort_Slice ids' g = Kruskal sort_Slice ids g
    \<and> (\<forall>r g1. Kruskal sort_Slice ids g = Some (Inr (r, g1)) \<longrightarrow>
          Kruskal sort_Slice ids' g1 = Some (Inr (r, g1)))
    \<and> (\<forall>r g1. Prim g startID = Inr (r, g1) \<longrightarrow> Prim g1 startID = Inr (r, g1))"
proof -
  have "set ids = set ids'"
    using assms by (simp add: iteration_order_def)
  then have "Kruskal sort_Slice ids' g = Kruskal sort_Slice ids g"
    using Kruskal_order by metis
  then show ?thesis
    using Kruskal_frame Prim_frame by metis
qed

theorem determinism_witness:
  "iteration_order triangle [0, 1, 2] \<and> iteration_order triangle [2, 0, 1]
   \<and> Kruskal stable_sort [2, 0, 1] triangle = Kruskal stable_sort [0, 1, 2] triangle
   \<and> (\<exists>r. Kruskal stable_sort [0, 1, 2] triangle = Some (Inr (r, triangle))
          \<and> Kruskal stable_sort [2, 0, 1] triangle = Some (Inr (r, triangle)))
   \<and> (\<exists>r. Prim triangle 0 = Inr (r, triangle))"
proof -
  have i1: "iteration_order triangle [0, 1, 2]" and i2: "iteration_order triangle [2, 0, 1]"
    by code_simp+
  have d: "\<not> Directed triangle"
    by code_simp
  obtain r where r: "Kruskal stable_sort [0, 1, 2] triangle = Some (Inr (r, triangle))"
    using Kruskal_returns [OF d] by blast
  obtain r' where r': "Prim triangle 0 = Inr (r', triangle)"
    using Prim_returns [OF d] by blast
  show ?thesis
    using i1 i2 r r' determinism [OF i1 i2, of stable_sort 0] by metis
qed

section \<open>Connectivity, components and forests\<close>

text \<open>The pairs of identities that the edges of a list join, and the connectivity they generate.\<close>

definition joins :: "'a Edge list \<Rightarrow> (go_int \<times> go_int) set" where
  "joins es = (\<lambda>e. (ID (From e), ID (To e))) ` set es"

definition conn :: "'a Edge list \<Rightarrow> (go_int \<times> go_int) set" where
  "conn es = (joins es \<union> (joins es)\<inverse>)\<^sup>*"

lemma conn_refl [simp]: "(x, x) \<in> conn es"
  by (simp add: conn_def)

lemma conn_trans: "(x, y) \<in> conn es \<Longrightarrow> (y, z) \<in> conn es \<Longrightarrow> (x, z) \<in> conn es"
  unfolding conn_def by (rule rtrancl_trans)

lemma conn_sym: "(x, y) \<in> conn es \<Longrightarrow> (y, x) \<in> conn es"
proof -
  have "sym (joins es \<union> (joins es)\<inverse>)"
    by (simp add: sym_Un_converse)
  then have "sym ((joins es \<union> (joins es)\<inverse>)\<^sup>*)"
    by (rule sym_rtrancl)
  then show "(x, y) \<in> conn es \<Longrightarrow> (y, x) \<in> conn es"
    unfolding conn_def by (rule symD)
qed

lemma conn_edge: "e \<in> set es \<Longrightarrow> (ID (From e), ID (To e)) \<in> conn es"
  unfolding conn_def joins_def by (intro r_into_rtrancl) auto

lemma conn_closed:
  assumes "\<And>a b. (a, b) \<in> joins es \<Longrightarrow> (a, b) \<in> conn fs"
  shows "conn es \<subseteq> conn fs"
proof
  fix p assume "p \<in> conn es"
  then obtain x y where p: "p = (x, y)" and xy: "(x, y) \<in> (joins es \<union> (joins es)\<inverse>)\<^sup>*"
    unfolding conn_def by (cases p) auto
  from xy have "(x, y) \<in> conn fs"
  proof (induction rule: rtrancl_induct)
    case base
    show ?case by simp
  next
    case (step y z)
    from step.hyps(2) have "(y, z) \<in> conn fs"
      using assms conn_sym by blast
    with step.IH show ?case by (rule conn_trans)
  qed
  with p show "p \<in> conn fs" by simp
qed

lemma conn_mono: "set es \<subseteq> set fs \<Longrightarrow> conn es \<subseteq> conn fs"
  by (rule conn_closed) (auto simp: joins_def intro: conn_edge)

lemma conn_Nil [simp]: "conn [] = Id"
  by (simp add: conn_def joins_def)

lemma conn_Cons:
  "(x, y) \<in> conn (e # es) \<longleftrightarrow>
     (x, y) \<in> conn es
     \<or> (x, ID (From e)) \<in> conn es \<and> (ID (To e), y) \<in> conn es
     \<or> (x, ID (To e)) \<in> conn es \<and> (ID (From e), y) \<in> conn es"
  (is "?L \<longleftrightarrow> ?R x y")
proof
  assume ?L
  then have "(x, y) \<in> (joins (e # es) \<union> (joins (e # es))\<inverse>)\<^sup>*"
    by (simp add: conn_def)
  then show "?R x y"
  proof (induction rule: rtrancl_induct)
    case base
    show ?case by simp
  next
    case (step y z)
    from step.hyps(2) consider
        "(y, z) \<in> conn es"
      | "y = ID (From e)" "z = ID (To e)"
      | "y = ID (To e)" "z = ID (From e)"
      by (auto simp: joins_def intro: conn_edge conn_sym [OF conn_edge])
    then show ?case
    proof cases
      case 1
      then show ?thesis using step.IH conn_trans by blast
    next
      case 2
      then show ?thesis using step.IH conn_trans conn_refl by blast
    next
      case 3
      then show ?thesis using step.IH conn_trans conn_refl by blast
    qed
  qed
next
  have m: "conn es \<subseteq> conn (e # es)"
    by (rule conn_mono) auto
  have e: "(ID (From e), ID (To e)) \<in> conn (e # es)"
    by (rule conn_edge) simp
  assume "?R x y"
  then show ?L
    using m e conn_trans conn_sym by (meson subsetD)
qed

lemma conn_Cons_same:
  assumes "(ID (From e), ID (To e)) \<in> conn es"
  shows "conn (e # es) = conn es"
proof -
  have "(x, y) \<in> conn (e # es) \<longleftrightarrow> (x, y) \<in> conn es" for x y
    unfolding conn_Cons using assms by (meson conn_trans conn_sym)
  then show ?thesis by auto
qed

text \<open>Edge lists whose endpoints lie in a set of vertices.\<close>

definition within :: "go_int set \<Rightarrow> 'a Edge list \<Rightarrow> bool" where
  "within V es = (\<forall>e \<in> set es. ID (From e) \<in> V \<and> ID (To e) \<in> V)"

lemma conn_within:
  assumes "within V es" and "(x, y) \<in> conn es" and "x \<noteq> y"
  shows "x \<in> V \<and> y \<in> V"
proof -
  have "(x, y) \<in> (joins es \<union> (joins es)\<inverse>)\<^sup>*"
    using assms(2) by (simp add: conn_def)
  then have "x = y \<or> x \<in> V \<and> y \<in> V"
  proof (induction rule: rtrancl_induct)
    case base
    show ?case by simp
  next
    case (step y z)
    from step.hyps(2) have "y \<in> V \<and> z \<in> V"
      using assms(1) by (auto simp: joins_def within_def)
    then show ?case using step.IH by auto
  qed
  then show ?thesis using assms(3) by simp
qed

text \<open>The components of a vertex set under an edge list.\<close>

definition component :: "go_int set \<Rightarrow> 'a Edge list \<Rightarrow> go_int \<Rightarrow> go_int set" where
  "component V es x = {y \<in> V. (x, y) \<in> conn es}"

definition components :: "go_int set \<Rightarrow> 'a Edge list \<Rightarrow> go_int set set" where
  "components V es = component V es ` V"

lemma component_self: "x \<in> V \<Longrightarrow> x \<in> component V es x"
  by (simp add: component_def)

lemma component_eq_iff:
  assumes "x \<in> V" and "y \<in> V"
  shows "component V es x = component V es y \<longleftrightarrow> (x, y) \<in> conn es"
proof
  assume "component V es x = component V es y"
  then have "y \<in> component V es x"
    using component_self [OF assms(2)] by simp
  then show "(x, y) \<in> conn es"
    by (simp add: component_def)
next
  assume xy: "(x, y) \<in> conn es"
  have "(x, z) \<in> conn es \<longleftrightarrow> (y, z) \<in> conn es" for z
    using xy by (meson conn_trans conn_sym)
  then show "component V es x = component V es y"
    by (simp add: component_def)
qed

lemma components_Nil: "components V [] = (\<lambda>x. {x}) ` V"
  by (auto simp: components_def component_def intro!: image_cong)

lemma card_components_Nil: "card (components V ([] :: 'a Edge list)) = card V"
proof -
  have "inj_on (\<lambda>x :: go_int. {x}) V"
    by (simp add: inj_on_def)
  then show ?thesis
    by (simp add: components_Nil card_image)
qed

lemma components_Cons_same:
  "(ID (From e), ID (To e)) \<in> conn es \<Longrightarrow> components V (e # es) = components V es"
  by (simp add: components_def component_def conn_Cons_same)

lemma component_Cons:
  assumes "x \<in> V"
  shows "component V (e # es) x =
     (if (x, ID (From e)) \<in> conn es \<or> (x, ID (To e)) \<in> conn es
      then component V es (ID (From e)) \<union> component V es (ID (To e))
      else component V es x)"
proof -
  let ?u = "ID (From e)" and ?v = "ID (To e)"
  have "(x, y) \<in> conn (e # es) \<longleftrightarrow> (?u, y) \<in> conn es \<or> (?v, y) \<in> conn es"
    if "(x, ?u) \<in> conn es \<or> (x, ?v) \<in> conn es" for y
    unfolding conn_Cons using that by (meson conn_trans conn_sym)
  moreover have "(x, y) \<in> conn (e # es) \<longleftrightarrow> (x, y) \<in> conn es"
    if "\<not> ((x, ?u) \<in> conn es \<or> (x, ?v) \<in> conn es)" for y
    unfolding conn_Cons using that by blast
  ultimately show ?thesis
    by (auto simp: component_def)
qed

lemma card_components_Cons:
  assumes fin: "finite V" and u: "ID (From e) \<in> V" and v: "ID (To e) \<in> V"
    and new: "(ID (From e), ID (To e)) \<notin> conn es"
  shows "Suc (card (components V (e # es))) = card (components V es)"
proof -
  let ?u = "ID (From e)" and ?v = "ID (To e)"
  let ?A = "component V es ?u" and ?B = "component V es ?v"
  let ?Q = "components V es"
  have AB: "?A \<noteq> ?B"
    using component_eq_iff [OF u v, where es = es] new by simp
  have inQ: "?A \<in> ?Q" "?B \<in> ?Q"
    using u v by (simp_all add: components_def)
  have eq: "components V (e # es) = insert (?A \<union> ?B) (?Q - {?A, ?B})"
  proof (rule set_eqI)
    fix C
    show "C \<in> components V (e # es) \<longleftrightarrow> C \<in> insert (?A \<union> ?B) (?Q - {?A, ?B})"
    proof
      assume "C \<in> components V (e # es)"
      then obtain x where x: "x \<in> V" and C: "C = component V (e # es) x"
        by (auto simp: components_def)
      show "C \<in> insert (?A \<union> ?B) (?Q - {?A, ?B})"
      proof (cases "(x, ?u) \<in> conn es \<or> (x, ?v) \<in> conn es")
        case True
        then show ?thesis using C component_Cons [OF x, where e = e and es = es] by simp
      next
        case False
        then have "component V es x \<noteq> ?A" "component V es x \<noteq> ?B"
          using component_eq_iff [OF x u, where es = es] component_eq_iff [OF x v, where es = es] by auto
        moreover have "component V es x \<in> ?Q"
          using x by (simp add: components_def)
        ultimately show ?thesis using C component_Cons [OF x, where e = e and es = es] False by simp
      qed
    next
      assume "C \<in> insert (?A \<union> ?B) (?Q - {?A, ?B})"
      then consider "C = ?A \<union> ?B" | "C \<in> ?Q" "C \<noteq> ?A" "C \<noteq> ?B"
        by auto
      then show "C \<in> components V (e # es)"
      proof cases
        case 1
        have "component V (e # es) ?u = ?A \<union> ?B"
          using component_Cons [OF u, where e = e and es = es] by simp
        then show ?thesis using 1 u by (auto simp: components_def)
      next
        case 2
        then obtain x where x: "x \<in> V" and C: "C = component V es x"
          by (auto simp: components_def)
        have "\<not> ((x, ?u) \<in> conn es \<or> (x, ?v) \<in> conn es)"
          using 2(2,3) C component_eq_iff [OF x u, where es = es] component_eq_iff [OF x v, where es = es] by auto
        then have "component V (e # es) x = C"
          using component_Cons [OF x, where e = e and es = es] C by simp
        then show ?thesis using x by (auto simp: components_def)
      qed
    qed
  qed
  have notin: "?A \<union> ?B \<notin> ?Q - {?A, ?B}"
  proof
    assume "?A \<union> ?B \<in> ?Q - {?A, ?B}"
    then obtain z where z: "z \<in> V" and zc: "component V es z = ?A \<union> ?B"
      and ne: "component V es z \<noteq> ?A"
      by (auto simp: components_def)
    have "?u \<in> component V es z"
      using zc component_self [OF u] by auto
    then have "(z, ?u) \<in> conn es"
      by (simp add: component_def)
    then show False
      using ne component_eq_iff [OF z u, where es = es] by simp
  qed
  have finQ: "finite ?Q"
    using fin by (simp add: components_def)
  have "card (insert (?A \<union> ?B) (?Q - {?A, ?B})) = Suc (card (?Q - {?A, ?B}))"
    using notin finQ by simp
  moreover have "card (?Q - {?A, ?B}) = card ?Q - 2"
    using inQ AB finQ by (simp add: card_Diff_insert)
  moreover have "card ?Q \<ge> 2"
  proof -
    have "{?A, ?B} \<subseteq> ?Q"
      using inQ by simp
    with finQ have "card {?A, ?B} \<le> card ?Q"
      by (rule card_mono)
    then show ?thesis using AB by simp
  qed
  ultimately show ?thesis
    using eq by simp
qed

text \<open>A forest: no edge joins two vertices that the edges after it in the list already connect.\<close>

fun forest :: "'a Edge list \<Rightarrow> bool" where
  "forest [] = True"
| "forest (e # es) = ((ID (From e), ID (To e)) \<notin> conn es \<and> forest es)"

lemma forest_count:
  "finite V \<Longrightarrow> within V es \<Longrightarrow> forest es \<Longrightarrow> length es + card (components V es) = card V"
proof (induction es)
  case Nil
  then show ?case by (simp add: card_components_Nil)
next
  case (Cons e es)
  then have "Suc (card (components V (e # es))) = card (components V es)"
    by (intro card_components_Cons) (auto simp: within_def)
  moreover have "length es + card (components V es) = card V"
    using Cons by (simp add: within_def)
  ultimately show ?case by simp
qed




lemma component_in_components: "x \<in> V \<Longrightarrow> component V es x \<in> components V es"
  unfolding components_def by (rule imageI)

lemma components_one_conn:
  assumes "card (components V es) = 1" and "x \<in> V" and "y \<in> V"
  shows "(x, y) \<in> conn es"
proof -
  obtain C where C: "components V es = {C}"
    using assms(1) card_1_singletonE by blast
  have "component V es x \<in> {C}" "component V es y \<in> {C}"
    using assms(2,3) component_in_components [where es = es] unfolding C [symmetric] by blast+
  then have "component V es x = component V es y"
    by simp
  then show ?thesis
    using component_eq_iff [OF assms(2,3), where es = es] by simp
qed

lemma components_two:
  assumes "finite V" and "x \<in> V" and "y \<in> V" and "(x, y) \<notin> conn es"
  shows "card (components V es) \<ge> 2"
proof -
  have ne: "component V es x \<noteq> component V es y"
    using component_eq_iff [OF assms(2,3), where es = es] assms(4) by simp
  have sub: "{component V es x, component V es y} \<subseteq> components V es"
    using assms(2,3) by (simp add: component_in_components)
  have "finite (components V es)"
    using assms(1) by (simp add: components_def)
  then have "card {component V es x, component V es y} \<le> card (components V es)"
    using sub by (rule card_mono)
  then show ?thesis using ne by simp
qed


lemma conn_cong: "set es = set fs \<Longrightarrow> conn es = conn fs"
  by (simp add: conn_def joins_def)

lemma within_cong: "set es = set fs \<Longrightarrow> within V es = within V fs"
  by (simp add: within_def)

text \<open>The weight of an edge as Go compares it, and the edges of weight at most a bound.\<close>

definition weight :: "'a Edge \<Rightarrow> int" where
  "weight e = sint (Weight e)"

definition light :: "int \<Rightarrow> 'a Edge list \<Rightarrow> 'a Edge list" where
  "light W es = filter (\<lambda>e. weight e \<le> W) es"

lemma set_light: "set (light W es) = {e \<in> set es. weight e \<le> W}"
  by (simp add: light_def)

lemma light_rev: "light W (rev es) = rev (light W es)"
  by (simp add: light_def rev_filter)

lemma within_light: "within V es \<Longrightarrow> within V (light W es)"
  by (simp add: within_def light_def)






section \<open>The loop of Kruskal\<close>

text \<open>Two elements have the same root.\<close>

definition uf_same :: "UnionFind \<Rightarrow> go_int \<Rightarrow> go_int \<Rightarrow> bool" where
  "uf_same uf x y = (\<exists>r. root_of (parent uf) x r \<and> root_of (parent uf) y r)"

text \<open>The union-find structure describes the connectivity of the accepted edges.\<close>

definition tracks :: "go_int set \<Rightarrow> UnionFind \<Rightarrow> 'a Edge list \<Rightarrow> bool" where
  "tracks V uf mst = (\<forall>x \<in> V. \<forall>y \<in> V. uf_same uf x y \<longleftrightarrow> (x, y) \<in> conn mst)"

lemma uf_same_roots:
  "root_of (parent uf) x tx \<Longrightarrow> root_of (parent uf) y ty \<Longrightarrow> uf_same uf x y \<longleftrightarrow> tx = ty"
  unfolding uf_same_def using root_of_unique by blast

lemma uf_same_cong: "same_roots (parent uf) (parent uf') \<Longrightarrow> uf_same uf' x y = uf_same uf x y"
  by (simp add: uf_same_def same_roots_def)

lemma conn_snoc: "conn (mst @ [e]) = conn (e # mst)"
  by (rule conn_cong) auto

lemma Union_uf_tracks:
  assumes inv: "uf_inv uf" and tr: "tracks V uf mst"
    and a: "ID (From e) \<in> V" and b: "ID (To e) \<in> V"
  shows "\<exists>merged uf'. Union_uf uf (ID (From e)) (ID (To e)) = Some (merged, uf')
     \<and> uf_inv uf'
     \<and> (merged \<longleftrightarrow> (ID (From e), ID (To e)) \<notin> conn mst)
     \<and> tracks V uf' (if merged then mst @ [e] else mst)"
proof -
  let ?a = "ID (From e)" and ?b = "ID (To e)"
  obtain rx ry uf2 where rx: "root_of (parent uf) ?a rx" and ry: "root_of (parent uf) ?b ry"
    and sr: "same_roots (parent uf) (parent uf2)"
    and r2: "int_at (parent uf2) rx = rx" "int_at (parent uf2) ry = ry"
    and u: "Union_uf uf ?a ?b = (if rx = ry then Some (False, uf2) else Some (True, link uf2 rx ry))"
    using Union_uf_result [OF inv, of ?a ?b] by blast
  have inv2: "uf_inv uf2"
    using inv sr by (rule uf_inv_same_roots)
  have ab: "(?a, ?b) \<in> conn mst \<longleftrightarrow> rx = ry"
    using tr a b uf_same_roots [OF rx ry] by (simp add: tracks_def)
  show ?thesis
  proof (cases "rx = ry")
    case True
    have "tracks V uf2 mst"
      using tr uf_same_cong [OF sr] by (simp add: tracks_def)
    then show ?thesis
      using True u inv2 ab by (intro exI [of _ False] exI [of _ uf2]) simp
  next
    case False
    let ?l = "link uf2 rx ry"
    obtain c d where cd: "c = rx \<and> d = ry \<or> c = ry \<and> d = rx"
      and lr: "\<And>z s. root_of (parent ?l) z s \<longleftrightarrow>
           (\<exists>t. root_of (parent uf2) z t \<and> s = (if t = c then d else t))"
      using link_roots [OF r2 False] by blast
    have invl: "uf_inv ?l"
      using inv2 r2 False by (rule uf_inv_link)
    have "uf_same ?l x y \<longleftrightarrow> (x, y) \<in> conn (mst @ [e])" if x: "x \<in> V" and y: "y \<in> V" for x y
    proof -
      obtain tx ty where tx: "root_of (parent uf) x tx" and ty: "root_of (parent uf) y ty"
        using inv unfolding uf_inv_def by blast
      have tx2: "root_of (parent uf2) x t \<longleftrightarrow> t = tx" for t
        using sr tx root_of_unique unfolding same_roots_def by blast
      have ty2: "root_of (parent uf2) y t \<longleftrightarrow> t = ty" for t
        using sr ty root_of_unique unfolding same_roots_def by blast
      have l: "uf_same ?l x y \<longleftrightarrow> (if tx = c then d else tx) = (if ty = c then d else ty)"
        unfolding uf_same_def lr tx2 ty2 by auto
      have xy: "(x, y) \<in> conn mst \<longleftrightarrow> tx = ty"
        using tr x y uf_same_roots [OF tx ty] by (simp add: tracks_def)
      have xa: "(x, ?a) \<in> conn mst \<longleftrightarrow> tx = rx"
        using tr x a uf_same_roots [OF tx rx] by (simp add: tracks_def)
      have xb: "(x, ?b) \<in> conn mst \<longleftrightarrow> tx = ry"
        using tr x b uf_same_roots [OF tx ry] by (simp add: tracks_def)
      have ay: "(?a, y) \<in> conn mst \<longleftrightarrow> rx = ty"
        using tr y a uf_same_roots [OF rx ty] by (simp add: tracks_def)
      have by': "(?b, y) \<in> conn mst \<longleftrightarrow> ry = ty"
        using tr y b uf_same_roots [OF ry ty] by (simp add: tracks_def)
      show ?thesis
        unfolding l conn_snoc conn_Cons xy xa xb ay by'
        using cd False by auto
    qed
    then have "tracks V ?l (mst @ [e])"
      by (simp add: tracks_def)
    then show ?thesis
      using False u invl ab by (intro exI [of _ True] exI [of _ ?l]) simp
  qed
qed

lemma forest_snoc:
  "forest (rev (mst @ [e])) \<longleftrightarrow> (ID (From e), ID (To e)) \<notin> conn mst \<and> forest (rev mst)"
  by (simp add: conn_cong [of "rev mst" mst])

lemma light_all: "(\<And>f. f \<in> set es \<Longrightarrow> weight f \<le> W) \<Longrightarrow> light W es = es"
  by (simp add: light_def)

lemma spanning_tree_connects:
  assumes "finite V" and "within V mst" and "forest (rev mst)"
    and "int (length mst) = int (card V) - 1" and "x \<in> V" and "y \<in> V"
  shows "(x, y) \<in> conn mst"
proof -
  have "length (rev mst) + card (components V (rev mst)) = card V"
    using assms(1-3) by (intro forest_count) (simp_all add: within_def)
  then have "card (components V (rev mst)) = 1"
    using assms(4) by simp
  then have "(x, y) \<in> conn (rev mst)"
    using assms(5,6) by (rule components_one_conn)
  then show ?thesis
    by (simp add: conn_cong [of "rev mst" mst])
qed

lemma kruskal_loop_correct:
  assumes fin: "finite V"
  shows "kruskal_loop (int (card V)) es uf mst t = Some (uf', mst', t') \<Longrightarrow>
    uf_inv uf \<Longrightarrow> tracks V uf mst \<Longrightarrow> forest (rev mst) \<Longrightarrow> within V mst \<Longrightarrow> within V es \<Longrightarrow>
    sorted_wrt (\<lambda>a b. weight a \<le> weight b) es \<Longrightarrow>
    (\<forall>f \<in> set mst. \<forall>e \<in> set es. weight f \<le> weight e) \<Longrightarrow>
    forest (rev mst') \<and> within V mst' \<and> set mst \<subseteq> set mst' \<and> set mst' \<subseteq> set mst \<union> set es
    \<and> (\<forall>e \<in> set es. (ID (From e), ID (To e)) \<in> conn (light (weight e) mst'))"
proof (induction es arbitrary: uf mst t)
  case Nil
  then show ?case by simp
next
  case (Cons e es)
  let ?a = "ID (From e)" and ?b = "ID (To e)"
  have a: "?a \<in> V" and b: "?b \<in> V" and wes: "within V es"
    using Cons.prems(6) by (simp_all add: within_def)
  obtain merged uf1 where u: "Union_uf uf ?a ?b = Some (merged, uf1)" and inv1: "uf_inv uf1"
    and m: "merged \<longleftrightarrow> (?a, ?b) \<notin> conn mst"
    and tr1: "tracks V uf1 (if merged then mst @ [e] else mst)"
    using Union_uf_tracks [OF Cons.prems(2,3) a b] by blast
  have sorted_es: "sorted_wrt (\<lambda>a b. weight a \<le> weight b) es"
    and e_le: "\<forall>e' \<in> set es. weight e \<le> weight e'"
    using Cons.prems(7) by simp_all
  have mst_le_e: "\<forall>f \<in> set mst. weight f \<le> weight e"
    and mst_le_es: "\<forall>f \<in> set mst. \<forall>e' \<in> set es. weight f \<le> weight e'"
    using Cons.prems(8) by simp_all
  show ?case
  proof (cases merged)
    case False
    then have l: "kruskal_loop (int (card V)) es uf1 mst t = Some (uf', mst', t')"
      using Cons.prems(1) u by simp
    have tr: "tracks V uf1 mst"
      using tr1 False by simp
    note IH = Cons.IH [OF l inv1 tr Cons.prems(4,5) wes sorted_es mst_le_es]
    have "light (weight e) mst = mst"
      using mst_le_e by (intro light_all) simp
    moreover have "set (light (weight e) mst) \<subseteq> set (light (weight e) mst')"
      using IH by (auto simp: set_light)
    ultimately have "conn mst \<subseteq> conn (light (weight e) mst')"
      using conn_mono by metis
    then have "(?a, ?b) \<in> conn (light (weight e) mst')"
      using m False by blast
    then show ?thesis
      using IH by auto
  next
    case True
    let ?mst1 = "mst @ [e]"
    have f1: "forest (rev ?mst1)"
      using m True Cons.prems(4) by (simp only: forest_snoc)
    have w1: "within V ?mst1"
      using Cons.prems(5) a b by (simp add: within_def)
    have tr: "tracks V uf1 ?mst1"
      using tr1 True by simp
    have le1: "\<forall>f \<in> set ?mst1. \<forall>e' \<in> set es. weight f \<le> weight e'"
      using mst_le_es e_le by auto
    show ?thesis
    proof (cases "int (length ?mst1) = int (card V) - 1")
      case stop: True
      then have res: "mst' = ?mst1"
        using Cons.prems(1) u True by (simp add: Let_def)
      have all: "(x, y) \<in> conn ?mst1" if "x \<in> V" "y \<in> V" for x y
        using fin w1 f1 stop that by (rule spanning_tree_connects)
      have "(ID (From e'), ID (To e')) \<in> conn (light (weight e') ?mst1)" if "e' \<in> set (e # es)" for e'
      proof -
        have "light (weight e') ?mst1 = ?mst1"
          using that mst_le_e mst_le_es e_le by (intro light_all) auto
        moreover have "ID (From e') \<in> V" "ID (To e') \<in> V"
          using that Cons.prems(6) by (auto simp: within_def)
        ultimately show ?thesis using all by simp
      qed
      then show ?thesis
        using res f1 w1 by auto
    next
      case go: False
      then have l: "kruskal_loop (int (card V)) es uf1 ?mst1 (t + Weight e) = Some (uf', mst', t')"
        using Cons.prems(1) u True by (simp add: Let_def)
      note IH = Cons.IH [OF l inv1 tr f1 w1 wes sorted_es le1]
      have "e \<in> set (light (weight e) mst')"
        using IH by (auto simp: set_light)
      then have "(?a, ?b) \<in> conn (light (weight e) mst')"
        by (rule conn_edge)
      then show ?thesis
        using IH by auto
    qed
  qed
qed

section \<open>The binary heap\<close>

definition up_index :: "nat \<Rightarrow> nat" where
  "up_index k = (k - 1) div 2"

lemma up_index_less: "0 < k \<Longrightarrow> up_index k < k"
  by (simp add: up_index_def)

lemma up_index_zero [simp]: "up_index 0 = 0"
  by (simp add: up_index_def)

lemma up_index_eq_iff: "0 < k \<Longrightarrow> up_index k = i \<longleftrightarrow> k = 2 * i + 1 \<or> k = 2 * i + 2"
  by (simp add: up_index_def) arith

lemma pq_Less_weight: "pq_Less h i j \<longleftrightarrow> weight (h ! i) < weight (h ! j)"
  by (simp add: pq_Less_def weight_def word_sless_alt)

lemma nth_pq_Swap:
  "i < length h \<Longrightarrow> j < length h \<Longrightarrow> k < length h \<Longrightarrow>
   pq_Swap h i j ! k = (if k = j then h ! i else if k = i then h ! j else h ! k)"
  by (simp add: pq_Swap_def nth_list_update)

lemma nth_pq_Swap_other:
  "k \<noteq> i \<Longrightarrow> k \<noteq> j \<Longrightarrow> pq_Swap h i j ! k = h ! k"
  by (simp add: pq_Swap_def)

lemma mset_pq_Swap: "i < length h \<Longrightarrow> j < length h \<Longrightarrow> mset (pq_Swap h i j) = mset h"
  unfolding pq_Swap_def by (rule mset_swap)

text \<open>The heap order on the first \<open>n\<close> elements; the same with the element at \<open>j\<close> possibly
  too light for its place; the same with the element at \<open>i\<close> possibly too heavy.\<close>

definition heap_ok :: "'a PriorityQueue \<Rightarrow> nat \<Rightarrow> bool" where
  "heap_ok h n = (\<forall>k. 0 < k \<and> k < n \<longrightarrow> weight (h ! up_index k) \<le> weight (h ! k))"

definition ok_except :: "'a PriorityQueue \<Rightarrow> nat \<Rightarrow> nat \<Rightarrow> bool" where
  "ok_except h n j =
     ((\<forall>k. 0 < k \<and> k < n \<and> k \<noteq> j \<longrightarrow> weight (h ! up_index k) \<le> weight (h ! k))
      \<and> (\<forall>k. 0 < k \<and> k < n \<and> up_index k = j \<and> 0 < j \<longrightarrow> weight (h ! up_index j) \<le> weight (h ! k)))"

definition ok_below :: "'a PriorityQueue \<Rightarrow> nat \<Rightarrow> nat \<Rightarrow> bool" where
  "ok_below h n i =
     ((\<forall>k. 0 < k \<and> k < n \<and> up_index k \<noteq> i \<longrightarrow> weight (h ! up_index k) \<le> weight (h ! k))
      \<and> (\<forall>k. 0 < k \<and> k < n \<and> up_index k = i \<and> 0 < i \<longrightarrow> weight (h ! up_index i) \<le> weight (h ! k)))"

lemma heap_up_step:
  assumes j: "j < length h" and ok: "ok_except h (length h) j"
    and lt: "weight (h ! j) < weight (h ! up_index j)" and pos: "up_index j \<noteq> j"
  shows "ok_except (pq_Swap h (up_index j) j) (length h) (up_index j)"
proof -
  let ?i = "up_index j" and ?h = "pq_Swap h (up_index j) j" and ?n = "length h"
  have j0: "0 < j" using pos by (cases j) simp_all
  have i: "?i < j" using j0 by (rule up_index_less)
  have il: "?i < ?n" using i j by simp
  have okA: "weight (h ! up_index k) \<le> weight (h ! k)" if "0 < k" "k < ?n" "k \<noteq> j" for k
    using ok that unfolding ok_except_def by blast
  have okB: "weight (h ! ?i) \<le> weight (h ! k)" if "0 < k" "k < ?n" "up_index k = j" for k
    using ok that j0 unfolding ok_except_def by blast
  have sw: "?h ! k = (if k = j then h ! ?i else if k = ?i then h ! j else h ! k)" if "k < ?n" for k
    using nth_pq_Swap [OF il j that] .
  have first: "weight (?h ! up_index k) \<le> weight (?h ! k)" if k: "0 < k" "k < ?n" "k \<noteq> ?i" for k
  proof -
    have ak: "up_index k < ?n" using up_index_less [OF k(1)] k(2) by simp
    show ?thesis
    proof (cases "k = j")
      case True
      then show ?thesis using sw [OF k(2)] sw [OF ak] lt i by simp
    next
      case kj: False
      have old: "weight (h ! up_index k) \<le> weight (h ! k)"
        using okA k kj by simp
      show ?thesis
      proof (cases "up_index k = j")
        case True
        then have "weight (h ! ?i) \<le> weight (h ! k)"
          using okB k by simp
        then show ?thesis using sw [OF k(2)] sw [OF ak] True kj k(3) by simp
      next
        case False
        then show ?thesis
          using sw [OF k(2)] sw [OF ak] kj k(3) old lt by (cases "up_index k = ?i") simp_all
      qed
    qed
  qed
  have second: "weight (?h ! up_index ?i) \<le> weight (?h ! k)"
    if k: "0 < k" "k < ?n" "up_index k = ?i" "0 < ?i" for k
  proof -
    have ai: "up_index ?i < ?i" using k(4) by (rule up_index_less)
    have ail: "up_index ?i < ?n" using ai il by simp
    have up: "weight (h ! up_index ?i) \<le> weight (h ! ?i)"
      using okA [of ?i] k(4) il i by simp
    have ki: "k \<noteq> ?i" using up_index_less [OF k(1)] k(3) by simp
    show ?thesis
    proof (cases "k = j")
      case True
      then show ?thesis using sw [OF k(2)] sw [OF ail] ai i up by simp
    next
      case False
      then have "weight (h ! ?i) \<le> weight (h ! k)"
        using okA [of k] k by simp
      then show ?thesis using sw [OF k(2)] sw [OF ail] ai i up False ki by simp
    qed
  qed
  show ?thesis
    unfolding ok_except_def using first second by blast
qed

lemma heap_up_ok:
  "j < length h \<Longrightarrow> ok_except h (length h) j \<Longrightarrow>
   heap_ok (heap_up h j) (length h) \<and> mset (heap_up h j) = mset h"
proof (induction h j rule: heap_up.induct)
  case (1 h j)
  show ?case
  proof (cases "up_index j = j \<or> \<not> pq_Less h j (up_index j)")
    case True
    then have eq: "heap_up h j = h"
      by (subst heap_up.simps) (simp add: up_index_def Let_def)
    have "weight (h ! up_index k) \<le> weight (h ! k)" if "0 < k" "k < length h" for k
    proof (cases "k = j")
      case kj: True
      then have "up_index j \<noteq> j" using up_index_less [of j] that by simp
      then show ?thesis using True kj by (simp add: pq_Less_weight)
    next
      case False
      then show ?thesis using "1.prems"(2) that by (simp add: ok_except_def)
    qed
    then show ?thesis using eq by (simp add: heap_ok_def)
  next
    case False
    then have eq: "heap_up h j = heap_up (pq_Swap h (up_index j) j) (up_index j)"
      by (subst heap_up.simps) (simp add: up_index_def Let_def)
    have lt: "weight (h ! j) < weight (h ! up_index j)" and pos: "up_index j \<noteq> j"
      using False by (simp_all add: pq_Less_weight)
    have j0: "0 < j" using pos by (cases j) simp_all
    have il: "up_index j < length (pq_Swap h (up_index j) j)"
      using up_index_less [OF j0] "1.prems"(1) by simp
    have ok': "ok_except (pq_Swap h (up_index j) j) (length (pq_Swap h (up_index j) j)) (up_index j)"
      using heap_up_step [OF "1.prems" lt pos] by simp
    have "heap_ok (heap_up (pq_Swap h (up_index j) j) (up_index j)) (length (pq_Swap h (up_index j) j))
       \<and> mset (heap_up (pq_Swap h (up_index j) j) (up_index j)) = mset (pq_Swap h (up_index j) j)"
      using "1.IH" [OF up_index_def [of j] False il ok'] .
    then show ?thesis
      using eq mset_pq_Swap [of "up_index j" h j] il "1.prems"(1) by simp
  qed
qed


text \<open>The child \<^verbatim>\<open>down\<close> compares the element at \<open>i\<close> with: the lighter of the two.\<close>

definition light_child :: "'a PriorityQueue \<Rightarrow> nat \<Rightarrow> nat \<Rightarrow> nat" where
  "light_child h i n =
     (if 2 * i + 1 + 1 < n \<and> pq_Less h (2 * i + 1 + 1) (2 * i + 1) then 2 * i + 1 + 1 else 2 * i + 1)"

lemma heap_down_unfold:
  "heap_down h i n =
     (if 2 * i + 1 \<ge> n then h
      else if \<not> pq_Less h (light_child h i n) i then h
      else heap_down (pq_Swap h i (light_child h i n)) (light_child h i n) n)"
  by (subst heap_down.simps) (simp add: Let_def light_child_def)

lemma light_child_props:
  assumes "2 * i + 1 < n"
  shows "light_child h i n < n" and "i < light_child h i n" and "up_index (light_child h i n) = i"
    and "\<And>k. 0 < k \<Longrightarrow> k < n \<Longrightarrow> up_index k = i \<Longrightarrow>
           weight (h ! light_child h i n) \<le> weight (h ! k)"
proof -
  show "light_child h i n < n" "i < light_child h i n"
    using assms by (simp_all add: light_child_def)
  show "up_index (light_child h i n) = i"
    by (simp add: light_child_def up_index_def)
  fix k assume k: "0 < k" "k < n" "up_index k = i"
  then have "k = 2 * i + 1 \<or> k = 2 * i + 2"
    using up_index_eq_iff by blast
  then show "weight (h ! light_child h i n) \<le> weight (h ! k)"
    using k(2) by (auto simp: light_child_def pq_Less_weight)
qed

lemma heap_down_stop:
  assumes ok: "ok_below h n i"
    and stop: "2 * i + 1 \<ge> n \<or> \<not> pq_Less h (light_child h i n) i"
  shows "heap_ok h n"
  unfolding heap_ok_def
proof (intro allI impI)
  fix k assume k: "0 < k \<and> k < n"
  show "weight (h ! up_index k) \<le> weight (h ! k)"
  proof (cases "up_index k = i")
    case False
    then show ?thesis using ok k unfolding ok_below_def by blast
  next
    case True
    then have ks: "k = 2 * i + 1 \<or> k = 2 * i + 2"
      using k up_index_eq_iff by blast
    then have c: "2 * i + 1 < n" using k by auto
    then have "weight (h ! i) \<le> weight (h ! light_child h i n)"
      using stop by (simp add: pq_Less_weight)
    moreover have "weight (h ! light_child h i n) \<le> weight (h ! k)"
      using light_child_props(4) [OF c] k True by blast
    ultimately show ?thesis using True by simp
  qed
qed

lemma heap_down_step:
  assumes n: "n \<le> length h" and ok: "ok_below h n i" and c: "2 * i + 1 < n"
    and lt: "weight (h ! light_child h i n) < weight (h ! i)"
  shows "ok_below (pq_Swap h i (light_child h i n)) n (light_child h i n)"
proof -
  let ?j = "light_child h i n" and ?h = "pq_Swap h i (light_child h i n)"
  note lc = light_child_props [OF c, where h = h]
  have jl: "?j < length h" and il: "i < length h"
    using lc(1,2) n by simp_all
  have sw: "?h ! k = (if k = ?j then h ! i else if k = i then h ! ?j else h ! k)" if "k < n" for k
    using nth_pq_Swap [OF il jl, of k] that n by simp
  have okA: "weight (h ! up_index k) \<le> weight (h ! k)" if "0 < k" "k < n" "up_index k \<noteq> i" for k
    using ok that unfolding ok_below_def by blast
  have okB: "weight (h ! up_index i) \<le> weight (h ! k)" if "0 < k" "k < n" "up_index k = i" "0 < i" for k
    using ok that unfolding ok_below_def by blast
  have first: "weight (?h ! up_index k) \<le> weight (?h ! k)"
    if k: "0 < k" "k < n" "up_index k \<noteq> ?j" for k
  proof -
    have ak: "up_index k < n" "up_index k < k" using up_index_less [OF k(1)] k(2) by simp_all
    consider "k = ?j" | "k \<noteq> ?j" "up_index k = i" | "k = i" | "k \<noteq> ?j" "k \<noteq> i" "up_index k \<noteq> i"
      by blast
    then show ?thesis
    proof cases
      case 1
      then show ?thesis using sw [OF k(2)] sw [OF ak(1)] lc(2,3) lt by simp
    next
      case 2
      then have "weight (h ! ?j) \<le> weight (h ! k)"
        using lc(4) k by blast
      moreover have "k \<noteq> i" using 2(2) ak(2) by simp
      ultimately show ?thesis using sw [OF k(2)] sw [OF ak(1)] 2 lc(2) by simp
    next
      case 3
      have "weight (h ! up_index i) \<le> weight (h ! ?j)"
        using okB [of ?j] lc k(1) 3 by simp
      moreover have "up_index i \<noteq> ?j" "up_index i \<noteq> i"
        using ak(2) 3 lc(2) by simp_all
      ultimately show ?thesis using sw [OF k(2)] sw [OF ak(1)] 3 lc(2) by simp
    next
      case 4
      then show ?thesis using sw [OF k(2)] sw [OF ak(1)] okA [OF k(1,2)] k(3) by simp
    qed
  qed
  have second: "weight (?h ! up_index ?j) \<le> weight (?h ! k)"
    if k: "0 < k" "k < n" "up_index k = ?j" for k
  proof -
    have "k \<noteq> ?j" "k \<noteq> i" using up_index_less [OF k(1)] k(3) lc(2) by simp_all
    moreover have "weight (h ! ?j) \<le> weight (h ! k)"
      using okA [OF k(1,2)] k(3) lc(2) by simp
    ultimately show ?thesis
      using sw [OF k(2)] sw [of i] lc by simp
  qed
  show ?thesis
    unfolding ok_below_def using first second by blast
qed

lemma heap_down_ok:
  "n \<le> length h \<Longrightarrow> ok_below h n i \<Longrightarrow>
   heap_ok (heap_down h i n) n \<and> mset (heap_down h i n) = mset h
   \<and> (\<forall>k. n \<le> k \<longrightarrow> heap_down h i n ! k = h ! k)"
proof (induction h i n rule: heap_down.induct)
  case (1 h i n)
  show ?case
  proof (cases "2 * i + 1 \<ge> n \<or> \<not> pq_Less h (light_child h i n) i")
    case True
    then have "heap_down h i n = h"
      by (subst heap_down_unfold) auto
    then show ?thesis
      using heap_down_stop [OF "1.prems"(2) True] by simp
  next
    case False
    let ?j = "light_child h i n"
    have c: "2 * i + 1 < n" and lt: "weight (h ! ?j) < weight (h ! i)"
      using False by (simp_all add: pq_Less_weight)
    have eq: "heap_down h i n = heap_down (pq_Swap h i ?j) ?j n"
      using False by (subst heap_down_unfold) auto
    note lc = light_child_props [OF c, where h = h]
    have n': "n \<le> length (pq_Swap h i ?j)"
      using "1.prems"(1) by simp
    have ok': "ok_below (pq_Swap h i ?j) n ?j"
      using "1.prems" c lt by (rule heap_down_step)
    have j_def: "?j = (if 2 * i + 1 + 1 < n \<and> pq_Less h (2 * i + 1 + 1) (2 * i + 1) then 2 * i + 1 + 1 else 2 * i + 1)"
      by (simp add: light_child_def)
    have "\<not> n \<le> 2 * i + 1" using c by simp
    moreover have "\<not> \<not> pq_Less h ?j i" using False by simp
    ultimately have IH: "heap_ok (heap_down (pq_Swap h i ?j) ?j n) n
       \<and> mset (heap_down (pq_Swap h i ?j) ?j n) = mset (pq_Swap h i ?j)
       \<and> (\<forall>k. n \<le> k \<longrightarrow> heap_down (pq_Swap h i ?j) ?j n ! k = pq_Swap h i ?j ! k)"
      using "1.IH" [OF refl _ j_def _ n' ok'] by blast
    have "pq_Swap h i ?j ! k = h ! k" if "n \<le> k" for k
      using that lc(1,2) by (intro nth_pq_Swap_other) simp_all
    moreover have "mset (pq_Swap h i ?j) = mset h"
      using lc(1,2) "1.prems"(1) by (intro mset_pq_Swap) simp_all
    ultimately show ?thesis
      using IH eq by simp
  qed
qed


lemma heap_root_min: "heap_ok h n \<Longrightarrow> k < n \<Longrightarrow> weight (h ! 0) \<le> weight (h ! k)"
proof (induction k rule: less_induct)
  case (less k)
  show ?case
  proof (cases "k = 0")
    case True
    then show ?thesis by simp
  next
    case False
    then have k0: "0 < k" by simp
    have "weight (h ! 0) \<le> weight (h ! up_index k)"
      using less.IH [OF up_index_less [OF k0] less.prems(1)] up_index_less [OF k0] less.prems(2)
      by simp
    moreover have "weight (h ! up_index k) \<le> weight (h ! k)"
      using less.prems k0 by (simp add: heap_ok_def)
    ultimately show ?thesis by simp
  qed
qed

lemma heap_Push_ok:
  assumes "heap_ok h (length h)"
  shows "heap_ok (heap_Push h x) (length (heap_Push h x)) \<and> mset (heap_Push h x) = add_mset x (mset h)"
proof -
  let ?h1 = "h @ [x]"
  have "ok_except ?h1 (length ?h1) (length h)"
    unfolding ok_except_def
  proof (intro conjI allI impI)
    fix k assume k: "0 < k \<and> k < length ?h1 \<and> k \<noteq> length h"
    then have kl: "k < length h" by simp
    then have "up_index k < length h" using up_index_less [of k] k by simp
    then show "weight (?h1 ! up_index k) \<le> weight (?h1 ! k)"
      using assms k kl by (simp add: heap_ok_def nth_append)
  next
    fix k assume k: "0 < k \<and> k < length ?h1 \<and> up_index k = length h \<and> 0 < length h"
    then have "length h < k" using up_index_less [of k] by simp
    then show "weight (?h1 ! up_index (length h)) \<le> weight (?h1 ! k)"
      using k by simp
  qed
  then have "heap_ok (heap_up ?h1 (length h)) (length ?h1) \<and> mset (heap_up ?h1 (length h)) = mset ?h1"
    by (intro heap_up_ok) simp_all
  then show ?thesis
    by (simp add: heap_Push_def pq_Push_def pq_Len_def Let_def)
qed

lemma heap_Pop_ok:
  assumes ok: "heap_ok h (length h)" and ne: "h \<noteq> []"
  shows "\<exists>x h'. heap_Pop h = Inr (x, h') \<and> mset h = add_mset x (mset h')
     \<and> heap_ok h' (length h') \<and> (\<forall>y \<in> set h. weight x \<le> weight y)"
proof -
  define n where "n = length h - 1"
  define h1 where "h1 = pq_Swap h 0 n"
  define h2 where "h2 = heap_down h1 0 n"
  have hl: "0 < length h" using ne by simp
  have nl: "n < length h" using hl by (simp add: n_def)
  have l1: "length h1 = length h" by (simp add: h1_def)
  have l2: "length h2 = length h" by (simp add: h2_def l1)
  have n1: "n \<le> length h1" using nl l1 by simp
  have ok1: "ok_below h1 n 0"
    unfolding ok_below_def
  proof (intro conjI allI impI)
    fix k assume k: "0 < k \<and> k < n \<and> up_index k \<noteq> 0"
    then have a: "up_index k < k" using up_index_less by blast
    have "h1 ! k = h ! k" "h1 ! up_index k = h ! up_index k"
      using k a unfolding h1_def by (simp_all add: nth_pq_Swap_other)
    moreover have "0 < k \<and> k < length h"
      using k nl by auto
    then have "weight (h ! up_index k) \<le> weight (h ! k)"
      using ok unfolding heap_ok_def by blast
    ultimately show "weight (h1 ! up_index k) \<le> weight (h1 ! k)" by simp
  qed simp
  have d: "heap_ok h2 n" "mset h2 = mset h1" "h2 ! n = h1 ! n"
    using heap_down_ok [OF n1 ok1] by (simp_all add: h2_def)
  have last: "h1 ! n = h ! 0"
    using nl hl unfolding h1_def by (simp add: nth_pq_Swap)
  have pop: "heap_Pop h = Inr (h2 ! n, take n h2)"
    using ne by (simp add: heap_Pop_def pq_Len_def Let_def pq_Pop_def h2_def h1_def n_def)
  have t1: "take (Suc n) h2 = take n h2 @ [h2 ! n]"
    using nl l2 by (intro take_Suc_conv_app_nth) simp
  have t2: "take (Suc n) h2 = h2"
    using l2 hl by (simp add: n_def)
  have "h2 = take n h2 @ [h2 ! n]"
    by (rule trans [OF t2 [symmetric] t1])
  then have "mset h2 = mset (take n h2 @ [h2 ! n])"
    by (rule arg_cong)
  then have split: "mset h2 = add_mset (h2 ! n) (mset (take n h2))"
    by simp
  have "mset h1 = mset h"
    unfolding h1_def using hl nl by (intro mset_pq_Swap) simp_all
  then have m: "mset h = add_mset (h2 ! n) (mset (take n h2))"
    using d(2) split by simp
  have ok': "heap_ok (take n h2) (length (take n h2))"
    unfolding heap_ok_def
  proof (intro allI impI)
    fix k assume k: "0 < k \<and> k < length (take n h2)"
    then have kn: "k < n" by simp
    then have an: "up_index k < n" using up_index_less [of k] k by simp
    have "weight (h2 ! up_index k) \<le> weight (h2 ! k)"
      using d(1) k kn unfolding heap_ok_def by blast
    then show "weight (take n h2 ! up_index k) \<le> weight (take n h2 ! k)"
      using kn an by simp
  qed
  have "weight (h ! 0) \<le> weight y" if yin: "y \<in> set h" for y
  proof -
    have "\<exists>k. k < length h \<and> y = h ! k"
      using yin unfolding in_set_conv_nth by blast
    then obtain k where "k < length h" "y = h ! k"
      by blast
    then show ?thesis using heap_root_min [OF ok] by simp
  qed
  then have mn: "\<forall>y \<in> set h. weight (h2 ! n) \<le> weight y"
    using d(3) last by simp
  show ?thesis
    apply (rule exI [of _ "h2 ! n"])
    apply (rule exI [of _ "take n h2"])
    apply (intro conjI)
       apply (rule pop)
      apply (rule m)
     apply (rule ok')
    apply (rule mn)
    done
qed

lemma heap_Init_Nil: "heap_Init [] = []"
  by (simp add: heap_Init_def pq_Len_def)

section \<open>Well-formed graphs\<close>

text \<open>The identities of the vertices of a graph.\<close>

definition vertex_ids :: "'a Graph \<Rightarrow> go_int set" where
  "vertex_ids g = fset (fmdom (Vertices g))"

text \<open>
  The adjacency list that edge insertion builds for an identity from the global edge
  sequence: for every edge in order, the edge itself at its source and its reverse at its
  target.
\<close>

definition adjacency_of :: "go_int \<Rightarrow> 'a Edge list \<Rightarrow> 'a Edge list" where
  "adjacency_of k es =
     concat (map (\<lambda>e. (if ID (From e) = k then [e] else []) @ (if ID (To e) = k then [Reverse e] else [])) es)"

text \<open>
  An undirected graph as the insertion operations build it from vertices that come without
  edges of their own: every vertex is stored under its identity, the endpoints of every
  edge are vertices, and the adjacency lists are the ones the edges give.
\<close>

definition well_formed :: "'a Graph \<Rightarrow> bool" where
  "well_formed g =
     (\<not> Directed g \<and> keyed g \<and> within (vertex_ids g) (GEdges g)
      \<and> (\<forall>k \<in> vertex_ids g. adjacency g k = adjacency_of k (GEdges g)))"

text \<open>Every two vertices are joined by a path of edges.\<close>

definition connected :: "'a Graph \<Rightarrow> bool" where
  "connected g = (\<forall>x \<in> vertex_ids g. \<forall>y \<in> vertex_ids g. (x, y) \<in> conn (GEdges g))"

lemma finite_vertex_ids [simp]: "finite (vertex_ids g)"
  by (simp add: vertex_ids_def)

lemma VertexCount_card: "VertexCount g = int (card (vertex_ids g))"
  by (simp add: VertexCount_def vertex_ids_def fcard.rep_eq)

lemma set_adjacency_of:
  "set (adjacency_of k es) =
     {e \<in> set es. ID (From e) = k} \<union> Reverse ` {e \<in> set es. ID (To e) = k}"
  by (induction es) (auto simp: adjacency_of_def)

lemma Reverse_simps [simp]:
  "ID (From (Reverse e)) = ID (To e)" "ID (To (Reverse e)) = ID (From e)"
  "Weight (Reverse e) = Weight e"
  by (simp_all add: Reverse_def)

lemma weight_Reverse [simp]: "weight (Reverse e) = weight e"
  by (simp add: weight_def)

lemma adjacency_entry:
  assumes "well_formed g" and "k \<in> vertex_ids g" and "p \<in> set (adjacency g k)"
  shows "ID (From p) = k" and "ID (To p) \<in> vertex_ids g"
    and "\<exists>e \<in> set (GEdges g). weight e = weight p
           \<and> (ID (From p) = ID (From e) \<and> ID (To p) = ID (To e)
              \<or> ID (From p) = ID (To e) \<and> ID (To p) = ID (From e))"
proof -
  have p: "p \<in> {e \<in> set (GEdges g). ID (From e) = k} \<union> Reverse ` {e \<in> set (GEdges g). ID (To e) = k}"
    using assms by (simp add: well_formed_def set_adjacency_of [symmetric])
  have w: "within (vertex_ids g) (GEdges g)"
    using assms(1) by (simp add: well_formed_def)
  show "ID (From p) = k"
    using p by auto
  show "ID (To p) \<in> vertex_ids g"
    using p w by (auto simp: within_def)
  show "\<exists>e \<in> set (GEdges g). weight e = weight p
           \<and> (ID (From p) = ID (From e) \<and> ID (To p) = ID (To e)
              \<or> ID (From p) = ID (To e) \<and> ID (To p) = ID (From e))"
    using p by auto
qed

lemma adjacency_outside:
  assumes "k \<notin> vertex_ids g"
  shows "adjacency g k = []"
proof -
  have "fmlookup (Vertices g) k = None"
    using assms by (simp add: vertex_ids_def fmdom_notD)
  then show ?thesis
    by (simp add: adjacency_def vertex_at_def zero_Vertex_def)
qed

lemma edge_in_adjacency:
  assumes "well_formed g" and "e \<in> set (GEdges g)"
  shows "e \<in> set (adjacency g (ID (From e)))" and "Reverse e \<in> set (adjacency g (ID (To e)))"
proof -
  have v: "ID (From e) \<in> vertex_ids g" "ID (To e) \<in> vertex_ids g"
    using assms by (auto simp: well_formed_def within_def)
  show "e \<in> set (adjacency g (ID (From e)))"
    using assms v(1) by (simp add: well_formed_def set_adjacency_of)
  show "Reverse e \<in> set (adjacency g (ID (To e)))"
    using assms v(2) by (simp add: well_formed_def set_adjacency_of)
qed

lemma adjacency_entry_conn:
  assumes "well_formed g" and "k \<in> vertex_ids g" and "p \<in> set (adjacency g k)" and "weight p \<le> W"
  shows "(ID (From p), ID (To p)) \<in> conn (light W (GEdges g))"
proof -
  obtain e where e: "e \<in> set (GEdges g)" "weight e = weight p"
    and ends: "ID (From p) = ID (From e) \<and> ID (To p) = ID (To e)
              \<or> ID (From p) = ID (To e) \<and> ID (To p) = ID (From e)"
    using adjacency_entry(3) [OF assms(1-3)] by blast
  have "e \<in> set (light W (GEdges g))"
    using e assms(4) by (simp add: set_light)
  then have "(ID (From e), ID (To e)) \<in> conn (light W (GEdges g))"
    by (rule conn_edge)
  then show ?thesis
    using ends conn_sym by metis
qed

text \<open>A path from inside a set to outside it uses an edge that leaves the set.\<close>

lemma conn_crossing:
  assumes "(x, y) \<in> conn es" and "x \<in> S" and "y \<notin> S"
  shows "\<exists>e \<in> set es. \<exists>a b. (a = ID (From e) \<and> b = ID (To e) \<or> a = ID (To e) \<and> b = ID (From e))
     \<and> a \<in> S \<and> b \<notin> S \<and> (x, a) \<in> conn es"
proof -
  have "(x, y) \<in> (joins es \<union> (joins es)\<inverse>)\<^sup>*"
    using assms(1) by (simp add: conn_def)
  then have "y \<notin> S \<longrightarrow> (\<exists>e \<in> set es. \<exists>a b.
      (a = ID (From e) \<and> b = ID (To e) \<or> a = ID (To e) \<and> b = ID (From e))
      \<and> a \<in> S \<and> b \<notin> S \<and> (x, a) \<in> conn es)"
  proof (induction rule: rtrancl_induct)
    case base
    then show ?case using assms(2) by simp
  next
    case (step y z)
    show ?case
    proof (cases "y \<in> S")
      case False
      then show ?thesis using step.IH by blast
    next
      case True
      have xy: "(x, y) \<in> conn es"
        using step.hyps(1) by (simp add: conn_def)
      from step.hyps(2) obtain e where e: "e \<in> set es"
        and yz: "y = ID (From e) \<and> z = ID (To e) \<or> y = ID (To e) \<and> z = ID (From e)"
        by (auto simp: joins_def)
      show ?thesis
      proof
        assume "z \<notin> S"
        then show "\<exists>e \<in> set es. \<exists>a b.
            (a = ID (From e) \<and> b = ID (To e) \<or> a = ID (To e) \<and> b = ID (From e))
            \<and> a \<in> S \<and> b \<notin> S \<and> (x, a) \<in> conn es"
          using e yz True xy by (intro bexI [of _ e] exI [of _ y] exI [of _ z]) simp_all
      qed
    qed
  qed
  then show ?thesis using assms(3) by blast
qed

text \<open>
  The insertion operations build well-formed graphs, as long as the vertices they are
  given come without edges of their own.
\<close>

lemma adjacency_of_append: "adjacency_of k (es @ fs) = adjacency_of k es @ adjacency_of k fs"
  by (simp add: adjacency_of_def)

lemma adjacency_of_outside: "within V es \<Longrightarrow> k \<notin> V \<Longrightarrow> adjacency_of k es = []"
  by (induction es) (auto simp: adjacency_of_def within_def)

lemma vertex_ids_lookup: "k \<in> vertex_ids g \<longleftrightarrow> fmlookup (Vertices g) k \<noteq> None"
  by (simp add: vertex_ids_def fmlookup_dom_iff)

lemma well_formed_NewGraph: "well_formed (NewGraph False)"
  by (simp add: well_formed_def keyed_NewGraph)
     (simp add: NewGraph_def within_def vertex_ids_def)

lemma adjacency_AddVertex:
  "adjacency (snd (AddVertex g v)) k =
     (if k = ID v \<and> k \<notin> vertex_ids g then Edges v else adjacency g k)"
  by (auto simp: adjacency_def vertex_at_def AddVertex_snd_lookup vertex_ids_lookup)

lemma vertex_ids_AddVertex: "vertex_ids (snd (AddVertex g v)) = insert (ID v) (vertex_ids g)"
  by (auto simp: vertex_ids_lookup AddVertex_snd_lookup split: if_splits)

lemma well_formed_AddVertex:
  assumes wf: "well_formed g" and new: "ID v \<in> vertex_ids g \<or> Edges v = []"
  shows "well_formed (snd (AddVertex g v))"
proof -
  have w: "within (vertex_ids g) (GEdges g)"
    and a: "\<And>k. k \<in> vertex_ids g \<Longrightarrow> adjacency g k = adjacency_of k (GEdges g)"
    using wf by (simp_all add: well_formed_def)
  have "within (insert (ID v) (vertex_ids g)) (GEdges g)"
    using w by (simp add: within_def)
  moreover have "adjacency (snd (AddVertex g v)) k = adjacency_of k (GEdges g)"
    if "k \<in> insert (ID v) (vertex_ids g)" for k
  proof (cases "k \<in> vertex_ids g")
    case True
    then show ?thesis by (simp add: adjacency_AddVertex a)
  next
    case False
    then have "k = ID v" "Edges v = []" using that new by auto
    then show ?thesis
      using False adjacency_of_outside [OF w False] by (simp add: adjacency_AddVertex)
  qed
  ultimately show ?thesis
    using wf
    by (simp add: well_formed_def keyed_AddVertex AddVertex_snd_Directed AddVertex_snd_GEdges
        vertex_ids_AddVertex)
qed

lemma well_formed_AddEdge:
  assumes wf: "well_formed g"
    and f: "ID (From edge) \<in> vertex_ids g \<or> Edges (From edge) = []"
    and t: "ID (To edge) \<in> vertex_ids g \<or> Edges (To edge) = []"
  shows "well_formed (snd (AddEdge g edge))"
proof -
  define a where "a = ID (From edge)"
  define b where "b = ID (To edge)"
  define g1 where "g1 = snd (AddVertex g (From edge))"
  define g2 where "g2 = snd (AddVertex g1 (To edge))"
  define ne where "ne = canonical g edge"
  define g' where "g' = snd (AddEdge g edge)"
  have keyed: "keyed g" and nd: "\<not> Directed g"
    using wf by (simp_all add: well_formed_def)
  have wf1: "well_formed g1"
    unfolding g1_def using wf f by (rule well_formed_AddVertex)
  have v1: "vertex_ids g1 = insert a (vertex_ids g)"
    by (simp add: g1_def a_def vertex_ids_AddVertex)
  have t1: "ID (To edge) \<in> vertex_ids g1 \<or> Edges (To edge) = []"
    using t v1 by auto
  have wf2: "well_formed g2"
    unfolding g2_def using wf1 t1 by (rule well_formed_AddVertex)
  have v2: "vertex_ids g2 = insert b (insert a (vertex_ids g))"
    by (simp add: g2_def b_def vertex_ids_AddVertex v1)
  have e2: "GEdges g2 = GEdges g"
    by (simp add: g2_def g1_def AddVertex_snd_GEdges)
  have w2: "within (vertex_ids g2) (GEdges g)"
    and a2: "\<And>k. k \<in> vertex_ids g2 \<Longrightarrow> adjacency g2 k = adjacency_of k (GEdges g)"
    using wf2 by (simp_all add: well_formed_def e2)
  have ids: "ID (From ne) = a" "ID (To ne) = b"
    using ID_resolve_keyed [OF keyed, of "From edge"]
      ID_resolve_keyed [OF keyed_AddVertex [OF keyed], of "From edge" "To edge"]
    by (simp_all add: ne_def canonical_def a_def b_def)
  have g': "g' = append_adjacency (append_adjacency (g2\<lparr>GEdges := GEdges g @ [ne]\<rparr>) a ne) b (Reverse ne)"
    using nd
    by (simp add: g'_def AddEdge_snd [OF keyed] Let_def with_endpoints_def g1_def [symmetric]
        g2_def [symmetric] ne_def [symmetric] a_def b_def e2)
  have adj3: "adjacency (g2\<lparr>GEdges := es\<rparr>) k = adjacency g2 k" for es k
    by (simp add: adjacency_def vertex_at_GEdges_upd)
  have vids3: "vertex_ids (g2\<lparr>GEdges := es\<rparr>) = vertex_ids g2" for es
    by (simp add: vertex_ids_def)
  have c1: "\<not> Directed g'"
    using nd by (simp add: g' Directed_append_adjacency g2_def g1_def AddVertex_snd_Directed)
  have c2: "keyed g'"
    unfolding g'_def using keyed by (rule keyed_AddEdge)
  have c3: "vertex_ids g' = vertex_ids g2"
    by (auto simp: g' vertex_ids_def fmdom_append_adjacency v2 [unfolded vertex_ids_def])
  have c4: "GEdges g' = GEdges g @ [ne]"
    by (simp add: g' GEdges_append_adjacency)
  have c5: "within (vertex_ids g2) (GEdges g @ [ne])"
    using w2 by (simp add: within_def ids v2)
  have c6: "adjacency g' k = adjacency_of k (GEdges g @ [ne])" if "k \<in> vertex_ids g2" for k
    using a2 [OF that]
    by (simp add: g' adjacency_append adj3 adjacency_of_append)
       (simp add: adjacency_of_def ids)
  show ?thesis
    unfolding g'_def [symmetric] well_formed_def c3 c4
    using c1 c2 c5 c6 by simp
qed

section \<open>The loop of Prim\<close>

lemma fold_heap_Push:
  "heap_ok h (length h) \<Longrightarrow>
   heap_ok (fold (\<lambda>e pq. heap_Push pq e) es h) (length (fold (\<lambda>e pq. heap_Push pq e) es h))
   \<and> set (fold (\<lambda>e pq. heap_Push pq e) es h) = set h \<union> set es"
proof (induction es arbitrary: h)
  case Nil
  then show ?case by simp
next
  case (Cons e es)
  have ok: "heap_ok (heap_Push h e) (length (heap_Push h e))"
    and m: "mset (heap_Push h e) = add_mset e (mset h)"
    using heap_Push_ok [OF Cons.prems] by simp_all
  have "set (heap_Push h e) = insert e (set h)"
    using m by (metis set_mset_add_mset_insert set_mset_mset)
  then show ?case
    using Cons.IH [OF ok] by auto
qed

lemma push_unvisited_ok:
  "heap_ok h (length h) \<Longrightarrow>
   heap_ok (push_unvisited visited es h) (length (push_unvisited visited es h))
   \<and> set (push_unvisited visited es h) = set h \<union> {e \<in> set es. ID (To e) \<notin> visited_set visited}"
  unfolding push_unvisited_def
proof (induction es arbitrary: h)
  case Nil
  then show ?case by simp
next
  case (Cons e es)
  show ?case
  proof (cases "is_visited visited (ID (To e))")
    case True
    then show ?thesis
      using Cons.IH [OF Cons.prems] by (auto simp: visited_set_def)
  next
    case False
    have ok: "heap_ok (heap_Push h e) (length (heap_Push h e))"
      and m: "mset (heap_Push h e) = add_mset e (mset h)"
      using heap_Push_ok [OF Cons.prems] by simp_all
    have "set (heap_Push h e) = insert e (set h)"
      using m by (metis set_mset_add_mset_insert set_mset_mset)
    then show ?thesis
      using Cons.IH [OF ok] False by (auto simp: visited_set_def)
  qed
qed

text \<open>
  What holds each time the loop of \<^verbatim>\<open>Prim\<close> tests its condition, for the start \<open>s\<close>:
  the queue is a heap of adjacency entries that leave visited vertices and holds every such
  entry whose target is unvisited; the edges taken so far form a tree on the visited
  vertices, all of them reachable from the start; and visited vertices that edges of weight
  at most \<open>W\<close> connect in the graph are connected by the taken edges of weight at most \<open>W\<close>.
\<close>

definition prim_inv ::
  "'a Graph \<Rightarrow> go_int \<Rightarrow> 'a PriorityQueue \<Rightarrow> 'a Edge list \<Rightarrow> go_int \<Rightarrow> (go_int, bool) fmap \<Rightarrow> bool" where
  "prim_inv g s pq mst t visited =
     (heap_ok pq (length pq)
      \<and> s \<in> visited_set visited \<and> visited_set visited \<subseteq> vertex_ids g
      \<and> card (visited_set visited) = Suc (length mst)
      \<and> (\<forall>p \<in> set pq. ID (From p) \<in> visited_set visited \<and> p \<in> set (adjacency g (ID (From p))))
      \<and> (\<forall>k \<in> visited_set visited. \<forall>p \<in> set (adjacency g k).
            ID (To p) \<notin> visited_set visited \<longrightarrow> p \<in> set pq)
      \<and> forest (rev mst) \<and> within (visited_set visited) mst
      \<and> (\<forall>p \<in> set mst. p \<in> set (adjacency g (ID (From p))))
      \<and> (\<forall>x \<in> visited_set visited. (s, x) \<in> conn (GEdges g))
      \<and> (\<forall>W. \<forall>x \<in> visited_set visited. \<forall>y \<in> visited_set visited.
            (x, y) \<in> conn (light W (GEdges g)) \<longrightarrow> (x, y) \<in> conn (light W mst))
      \<and> t = sum_list (map Weight mst))"

lemma prim_inv_skip:
  assumes inv: "prim_inv g s pq mst t visited"
    and pop: "mset pq = add_mset p (mset pq1)" and ok1: "heap_ok pq1 (length pq1)"
    and vis: "ID (To p) \<in> visited_set visited"
  shows "prim_inv g s pq1 mst t visited"
proof -
  have sets: "set pq = insert p (set pq1)"
    using pop by (metis set_mset_add_mset_insert set_mset_mset)
  have a: "\<forall>q \<in> set pq1. ID (From q) \<in> visited_set visited \<and> q \<in> set (adjacency g (ID (From q)))"
    using inv sets unfolding prim_inv_def by blast
  have b: "\<forall>k \<in> visited_set visited. \<forall>q \<in> set (adjacency g k).
            ID (To q) \<notin> visited_set visited \<longrightarrow> q \<in> set pq1"
  proof (intro ballI impI)
    fix k q assume k: "k \<in> visited_set visited" and q: "q \<in> set (adjacency g k)"
      and out: "ID (To q) \<notin> visited_set visited"
    have "q \<in> set pq"
      using inv k q out unfolding prim_inv_def by blast
    moreover have "q \<noteq> p" using out vis by auto
    ultimately show "q \<in> set pq1" using sets by auto
  qed
  show ?thesis
    using inv ok1 a b unfolding prim_inv_def by simp
qed

lemma prim_inv_take:
  assumes wf: "well_formed g" and inv: "prim_inv g s pq mst t visited"
    and pop: "mset pq = add_mset p (mset pq1)" and ok1: "heap_ok pq1 (length pq1)"
    and least: "\<forall>q \<in> set pq. weight p \<le> weight q"
    and new: "ID (To p) \<notin> visited_set visited"
  shows "prim_inv g s (push_unvisited (fmupd (ID (To p)) True visited) (adjacency g (ID (To p))) pq1)
           (mst @ [p]) (t + Weight p) (fmupd (ID (To p)) True visited)"
proof -
  define S where "S = visited_set visited"
  define x where "x = ID (From p)"
  define y where "y = ID (To p)"
  define visited1 where "visited1 = fmupd y True visited"
  define pq2 where "pq2 = push_unvisited visited1 (adjacency g y) pq1"
  have S1: "visited_set visited1 = insert y S"
    by (simp add: visited1_def S_def)
  have sets: "set pq = insert p (set pq1)"
    using pop by (metis set_mset_add_mset_insert set_mset_mset)
  have i_heap: "heap_ok pq (length pq)" and i_s: "s \<in> S" and i_sub: "S \<subseteq> vertex_ids g"
    and i_card: "card S = Suc (length mst)"
    and i_pq: "\<And>q. q \<in> set pq \<Longrightarrow> ID (From q) \<in> S \<and> q \<in> set (adjacency g (ID (From q)))"
    and i_cross: "\<And>k q. k \<in> S \<Longrightarrow> q \<in> set (adjacency g k) \<Longrightarrow> ID (To q) \<notin> S \<Longrightarrow> q \<in> set pq"
    and i_forest: "forest (rev mst)" and i_within: "within S mst"
    and i_mst: "\<And>q. q \<in> set mst \<Longrightarrow> q \<in> set (adjacency g (ID (From q)))"
    and i_reach: "\<And>v. v \<in> S \<Longrightarrow> (s, v) \<in> conn (GEdges g)"
    and i_light: "\<And>W u v. u \<in> S \<Longrightarrow> v \<in> S \<Longrightarrow> (u, v) \<in> conn (light W (GEdges g))
                    \<Longrightarrow> (u, v) \<in> conn (light W mst)"
    and i_t: "t = sum_list (map Weight mst)"
    using inv unfolding prim_inv_def S_def by blast+
  have p_in: "p \<in> set pq" using sets by simp
  have xS: "x \<in> S" and p_adj: "p \<in> set (adjacency g x)"
    using i_pq [OF p_in] by (simp_all add: x_def)
  have xV: "x \<in> vertex_ids g" using xS i_sub by blast
  have yS: "y \<notin> S" using new by (simp add: y_def S_def)
  have yV: "y \<in> vertex_ids g"
    using adjacency_entry(2) [OF wf xV p_adj] by (simp add: y_def)
  have finS: "finite S"
    using i_sub finite_vertex_ids by (rule finite_subset)
  have push: "heap_ok pq2 (length pq2)"
    and set2: "set pq2 = set pq1 \<union> {e \<in> set (adjacency g y). ID (To e) \<notin> insert y S}"
    using push_unvisited_ok [OF ok1, of visited1 "adjacency g y"] by (simp_all add: pq2_def S1)
  have c1: "s \<in> insert y S" using i_s by simp
  have c2: "insert y S \<subseteq> vertex_ids g" using i_sub yV by simp
  have c3: "card (insert y S) = Suc (length (mst @ [p]))"
    using i_card yS finS by simp
  have c4: "ID (From q) \<in> insert y S \<and> q \<in> set (adjacency g (ID (From q)))" if "q \<in> set pq2" for q
  proof (cases "q \<in> set pq1")
    case True
    then show ?thesis using i_pq [of q] sets by simp
  next
    case False
    then have q: "q \<in> set (adjacency g y)" using that set2 by auto
    have "ID (From q) = y"
      using adjacency_entry(1) [OF wf yV q] .
    then show ?thesis using q by simp
  qed
  have c5: "q \<in> set pq2" if k: "k \<in> insert y S" and q: "q \<in> set (adjacency g k)"
    and out: "ID (To q) \<notin> insert y S" for k q
  proof (cases "k = y")
    case True
    then show ?thesis using q out set2 by simp
  next
    case False
    then have kS: "k \<in> S" using k by simp
    have "q \<in> set pq" using i_cross [OF kS q] out by simp
    moreover have "q \<noteq> p" using out by (auto simp: y_def)
    ultimately show ?thesis using sets set2 by simp
  qed
  have xy: "x \<noteq> y" using xS yS by auto
  have "(x, y) \<notin> conn mst"
    using conn_within [OF i_within _ xy] yS by blast
  then have c6: "forest (rev (mst @ [p]))"
    using i_forest by (simp only: forest_snoc x_def y_def) simp
  have c7: "within (insert y S) (mst @ [p])"
    using i_within xS by (auto simp: within_def x_def y_def)
  have c8: "q \<in> set (adjacency g (ID (From q)))" if "q \<in> set (mst @ [p])" for q
    using that i_mst p_adj by (auto simp: x_def)
  have pW: "(x, y) \<in> conn (light W (GEdges g))" if "weight p \<le> W" for W
    using adjacency_entry_conn [OF wf xV p_adj that] by (simp add: x_def y_def)
  have "(x, y) \<in> conn (light (weight p) (GEdges g))"
    by (rule pW) simp
  then have xyG: "(x, y) \<in> conn (GEdges g)"
    using conn_mono [of "light (weight p) (GEdges g)" "GEdges g"] by (auto simp: set_light)
  have c9: "(s, v) \<in> conn (GEdges g)" if "v \<in> insert y S" for v
  proof (cases "v = y")
    case True
    show ?thesis
      using conn_trans [OF i_reach [OF xS] xyG] True by simp
  next
    case False
    then show ?thesis using that i_reach by simp
  qed
  have mono: "conn (light W mst) \<subseteq> conn (light W (mst @ [p]))" for W
    by (rule conn_mono) (auto simp: set_light)
  have to_y: "(u, y) \<in> conn (light W (mst @ [p]))"
    if u: "u \<in> S" and uy: "(u, y) \<in> conn (light W (GEdges g))" for W u
  proof -
    obtain e a b where e: "e \<in> set (light W (GEdges g))"
      and ab: "a = ID (From e) \<and> b = ID (To e) \<or> a = ID (To e) \<and> b = ID (From e)"
      and a: "a \<in> S" and b: "b \<notin> S"
      using conn_crossing [OF uy u yS] by blast
    have eG: "e \<in> set (GEdges g)" and eW: "weight e \<le> W"
      using e by (simp_all add: set_light)
    have "\<exists>q. q \<in> set (adjacency g a) \<and> ID (To q) = b \<and> weight q = weight e"
    proof (cases "a = ID (From e) \<and> b = ID (To e)")
      case True
      then show ?thesis
        using edge_in_adjacency(1) [OF wf eG] by (intro exI [of _ e]) simp
    next
      case False
      then have "a = ID (To e) \<and> b = ID (From e)" using ab by blast
      then show ?thesis
        using edge_in_adjacency(2) [OF wf eG] by (intro exI [of _ "Reverse e"]) simp
    qed
    then obtain q where q: "q \<in> set (adjacency g a)" "ID (To q) = b" "weight q = weight e"
      by blast
    have "q \<in> set pq"
      using i_cross [OF a q(1)] b q(2) by simp
    then have "weight p \<le> weight q" using least by blast
    then have pw: "weight p \<le> W" using q(3) eW by simp
    have "(y, x) \<in> conn (light W (GEdges g))"
      using pW [OF pw] by (rule conn_sym)
    then have "(u, x) \<in> conn (light W (GEdges g))"
      using uy conn_trans by blast
    then have "(u, x) \<in> conn (light W mst)"
      using i_light [OF u xS] by blast
    then have ux: "(u, x) \<in> conn (light W (mst @ [p]))"
      using mono by blast
    have "p \<in> set (light W (mst @ [p]))"
      using pw by (simp add: set_light)
    then have "(x, y) \<in> conn (light W (mst @ [p]))"
      unfolding x_def y_def by (rule conn_edge)
    then show ?thesis using ux conn_trans by blast
  qed
  have c10: "(u, v) \<in> conn (light W (mst @ [p]))"
    if u: "u \<in> insert y S" and v: "v \<in> insert y S"
      and uv: "(u, v) \<in> conn (light W (GEdges g))" for W u v
  proof -
    consider "u = v" | "u \<in> S" "v \<in> S" | "u \<in> S" "v = y" | "u = y" "v \<in> S"
      using u v by blast
    then show ?thesis
    proof cases
      case 1
      then show ?thesis by simp
    next
      case 2
      then show ?thesis using i_light [OF 2 uv] mono by blast
    next
      case 3
      then show ?thesis using to_y [of u W] uv by simp
    next
      case 4
      have "(v, y) \<in> conn (light W (GEdges g))"
        using uv 4 conn_sym by blast
      then have "(v, y) \<in> conn (light W (mst @ [p]))"
        using to_y [of v W] 4 by simp
      then show ?thesis using 4 conn_sym by blast
    qed
  qed
  have c11: "t + Weight p = sum_list (map Weight (mst @ [p]))"
    using i_t by simp
  have "prim_inv g s pq2 (mst @ [p]) (t + Weight p) visited1"
    unfolding prim_inv_def S1
  proof (intro conjI ballI allI impI)
    show "heap_ok pq2 (length pq2)" by (rule push)
    show "s \<in> insert y S" by (rule c1)
    show "insert y S \<subseteq> vertex_ids g" by (rule c2)
    show "card (insert y S) = Suc (length (mst @ [p]))" by (rule c3)
    show "ID (From q) \<in> insert y S" if "q \<in> set pq2" for q
      using c4 [OF that] by simp
    show "q \<in> set (adjacency g (ID (From q)))" if "q \<in> set pq2" for q
      using c4 [OF that] by simp
    show "q \<in> set pq2"
      if "k \<in> insert y S" "q \<in> set (adjacency g k)" "ID (To q) \<notin> insert y S" for k q
      using that by (rule c5)
    show "forest (rev (mst @ [p]))" by (rule c6)
    show "within (insert y S) (mst @ [p])" by (rule c7)
    show "q \<in> set (adjacency g (ID (From q)))" if "q \<in> set (mst @ [p])" for q
      using that by (rule c8)
    show "(s, v) \<in> conn (GEdges g)" if "v \<in> insert y S" for v
      using that by (rule c9)
    show "(u, v) \<in> conn (light W (mst @ [p]))"
      if "u \<in> insert y S" "v \<in> insert y S" "(u, v) \<in> conn (light W (GEdges g))" for W u v
      using that by (rule c10)
    show "t + Weight p = sum_list (map Weight (mst @ [p]))" by (rule c11)
  qed
  then show ?thesis
    by (simp add: pq2_def visited1_def y_def)
qed

lemma prim_loop_correct:
  "well_formed g \<Longrightarrow> prim_inv g s pq mst t visited \<Longrightarrow>
   \<exists>pq' mst' t' visited'. prim_loop g pq mst t visited = Inr (mst', t')
     \<and> prim_inv g s pq' mst' t' visited'
     \<and> (pq' = [] \<or> \<not> int (length mst') < VertexCount g - 1)"
proof (induction g pq mst t visited rule: prim_loop.induct)
  case (1 g pq mst t visited)
  note wf = "1.prems"(1) and inv = "1.prems"(2)
  show ?case
  proof (cases "0 < pq_Len pq \<and> int (length mst) < VertexCount g - 1")
    case False
    have "prim_loop g pq mst t visited = Inr (mst, t)"
      by (subst prim_loop.simps) (simp only: False if_False)
    moreover have "pq = [] \<or> \<not> int (length mst) < VertexCount g - 1"
      using False by (simp add: pq_Len_def)
    ultimately show ?thesis using inv by blast
  next
    case True
    have ok: "heap_ok pq (length pq)"
      using inv by (simp add: prim_inv_def)
    have ne: "pq \<noteq> []"
      using True by (auto simp: pq_Len_def)
    obtain p pq1 where pop: "heap_Pop pq = Inr (p, pq1)"
      and m: "mset pq = add_mset p (mset pq1)" and ok1: "heap_ok pq1 (length pq1)"
      and least: "\<forall>q \<in> set pq. weight p \<le> weight q"
      using heap_Pop_ok [OF ok ne] by blast
    show ?thesis
    proof (cases "is_visited visited (ID (To p))")
      case vis: True
      have "ID (To p) \<in> visited_set visited"
        using vis by (simp add: visited_set_def)
      then have inv1: "prim_inv g s pq1 mst t visited"
        by (rule prim_inv_skip [OF inv m ok1])
      have eq: "prim_loop g pq mst t visited = prim_loop g pq1 mst t visited"
        using True pop vis by (subst prim_loop.simps) simp
      show ?thesis
        using "1.IH"(1) [OF True pop refl vis wf inv1] eq by simp
    next
      case new: False
      have "ID (To p) \<notin> visited_set visited"
        using new by (simp add: visited_set_def)
      then have inv2: "prim_inv g s
          (push_unvisited (fmupd (ID (To p)) True visited) (Edges (vertex_at g (ID (To p)))) pq1)
          (mst @ [p]) (t + Weight p) (fmupd (ID (To p)) True visited)"
        using prim_inv_take [OF wf inv m ok1 least] by (simp add: adjacency_def)
      have eq: "prim_loop g pq mst t visited =
          prim_loop g (push_unvisited (fmupd (ID (To p)) True visited) (Edges (vertex_at g (ID (To p)))) pq1)
            (mst @ [p]) (t + Weight p) (fmupd (ID (To p)) True visited)"
        using True pop new by (subst prim_loop.simps) (simp add: Let_def)
      show ?thesis
        using "1.IH"(2) [OF True pop refl new refl refl refl refl refl wf inv2] eq by simp
    qed
  qed
qed

lemma visited_set_empty [simp]: "visited_set fmempty = {}"
  by (simp add: visited_set_def is_visited_def)

lemma heap_ok_Nil [simp]: "heap_ok [] 0"
  by (simp add: heap_ok_def)

lemma prim_inv_start:
  assumes wf: "well_formed g" and s: "s \<in> vertex_ids g"
  shows "prim_inv g s (fold (\<lambda>edge pq. heap_Push pq edge) (adjacency g s) (heap_Init [])) [] 0
           (fmupd s True fmempty)"
proof -
  define pq where "pq = fold (\<lambda>edge pq. heap_Push pq edge) (adjacency g s) (heap_Init [])"
  have ok: "heap_ok pq (length pq)" and sets: "set pq = set (adjacency g s)"
    using fold_heap_Push [of "[]" "adjacency g s"] by (simp_all add: pq_def heap_Init_Nil)
  have a: "ID (From q) = s" if "q \<in> set pq" for q
    using adjacency_entry(1) [OF wf s] that sets by simp
  show ?thesis
    unfolding pq_def [symmetric] prim_inv_def
    using ok s sets a by (simp add: within_def)
qed

lemma Prim_correct:
  assumes wf: "well_formed g" and s: "s \<in> vertex_ids g"
  shows "\<exists>mst pq visited. Prim g s = Inr ((Some mst, sum_list (map Weight mst)), g)
     \<and> prim_inv g s pq mst (sum_list (map Weight mst)) visited
     \<and> (pq = [] \<or> \<not> int (length mst) < VertexCount g - 1)"
proof -
  obtain start where look: "fmlookup (Vertices g) s = Some start"
    using s by (auto simp: vertex_ids_def dest: fmdomE)
  have keyed: "keyed g" and nd: "\<not> Directed g"
    using wf by (simp_all add: well_formed_def)
  have k: "ID start = s"
    using keyedD [OF keyed look] .
  have e: "Edges start = adjacency g s"
    using look by (simp add: adjacency_def vertex_at_def)
  define pq0 where "pq0 = fold (\<lambda>edge pq. heap_Push pq edge) (adjacency g s) (heap_Init [])"
  obtain pq mst t visited where
    loop: "prim_loop g pq0 [] 0 (fmupd s True fmempty) = Inr (mst, t)"
    and inv: "prim_inv g s pq mst t visited"
    and fin: "pq = [] \<or> \<not> int (length mst) < VertexCount g - 1"
    using prim_loop_correct [OF wf prim_inv_start [OF wf s]] unfolding pq0_def by blast
  have t: "t = sum_list (map Weight mst)"
    using inv by (simp add: prim_inv_def)
  have "Prim g s = Inr ((Some mst, t), g)"
    using nd look loop by (simp add: Prim_def k e pq0_def Let_def)
  then show ?thesis
    using inv fin t by blast
qed




section \<open>Kruskal on well-formed graphs\<close>

lemma tracks_start:
  assumes "set ids = V"
  shows "tracks V (fold (\<lambda>k uf. MakeSet uf k) ids NewUnionFind) []"
proof -
  define uf where "uf = fold (\<lambda>k uf. MakeSet uf k) ids NewUnionFind"
  have look: "fmlookup (parent uf) x = Some x" if "x \<in> V" for x
    using that assms by (simp add: uf_def fold_MakeSet_parent NewUnionFind_def)
  have root: "root_of (parent uf) x r \<longleftrightarrow> r = x" if "x \<in> V" for x r
  proof -
    have "int_at (parent uf) x = x"
      using look [OF that] by (simp add: int_at_def)
    then have "root_of (parent uf) x x"
      by (rule root_of.intros(1))
    then show ?thesis
      using root_of_unique by blast
  qed
  show ?thesis
    unfolding uf_def [symmetric] tracks_def uf_same_def
    by (auto simp: root)
qed

lemma sless_weight: "\<not> Weight b <s Weight a \<longleftrightarrow> weight a \<le> weight b"
  by (simp add: word_sless_alt weight_def not_less)

lemma weight_bound: "weight e \<le> 2 ^ 63"
proof -
  have "sint (Weight e) < 2 ^ (LENGTH(64) - 1)"
    by (rule sint_lt)
  then show ?thesis by (simp add: weight_def)
qed

lemma light_top: "light (2 ^ 63) es = es"
  by (rule light_all) (rule weight_bound)

text \<open>
  What \<^verbatim>\<open>Kruskal\<close> returns on a well-formed graph: a forest of edges of the graph that
  joins, among the edges of weight at most \<open>W\<close>, exactly what the graph joins.
\<close>

lemma Kruskal_correct:
  assumes wf: "well_formed g" and srt: "sorts_by_weight sort_Slice" and it: "iteration_order g ids"
  shows "\<exists>mst. Kruskal sort_Slice ids g = Some (Inr ((mst, sum_list (map Weight mst)), g))
     \<and> forest (rev mst) \<and> within (vertex_ids g) mst \<and> set mst \<subseteq> set (GEdges g)
     \<and> (\<forall>W. conn (light W mst) = conn (light W (GEdges g)))"
proof -
  define V where "V = vertex_ids g"
  define es where "es = sort_Slice (\<lambda>a b. Weight a <s Weight b) (GEdges g)"
  define uf where "uf = fold (\<lambda>k uf. MakeSet uf k) ids NewUnionFind"
  have nd: "\<not> Directed g" and wG: "within V (GEdges g)"
    using wf by (simp_all add: well_formed_def V_def)
  have ids: "set ids = V"
    using it by (simp add: iteration_order_def V_def vertex_ids_def)
  have finV: "finite V" by (simp add: V_def)
  have n: "VertexCount g = int (card V)"
    by (simp add: VertexCount_card V_def)
  have ms: "mset es = mset (GEdges g)"
    and so: "sorted_wrt (\<lambda>a b. \<not> Weight b <s Weight a) es"
    using srt unfolding sorts_by_weight_def es_def by blast+
  have ses: "set es = set (GEdges g)"
    using ms by (rule mset_eq_setD)
  have sorted: "sorted_wrt (\<lambda>a b. weight a \<le> weight b) es"
    using so by (simp only: sless_weight)
  have wes: "within V es"
    using wG within_cong [OF ses] by blast
  have inv: "uf_inv uf"
    unfolding uf_def by (rule uf_inv_fold_MakeSet) (rule uf_inv_New)
  have tr: "tracks V uf []"
    unfolding uf_def using ids by (rule tracks_start)
  obtain uf' acc where loop: "kruskal_loop (int (card V)) es uf [] 0
      = Some (uf', [] @ acc, 0 + sum_list (map Weight acc))"
    using kruskal_loop_total [OF inv, of "int (card V)" es "[]" 0] by blast
  have res: "forest (rev ([] @ acc)) \<and> within V ([] @ acc) \<and> set [] \<subseteq> set ([] @ acc)
      \<and> set ([] @ acc) \<subseteq> set [] \<union> set es
      \<and> (\<forall>e \<in> set es. (ID (From e), ID (To e)) \<in> conn (light (weight e) ([] @ acc)))"
    by (rule kruskal_loop_correct [OF finV loop inv tr _ _ wes sorted]) (simp_all add: within_def)
  have f: "forest (rev acc)" and w: "within V acc" and sub: "set acc \<subseteq> set (GEdges g)"
    and cl: "\<And>e. e \<in> set (GEdges g) \<Longrightarrow> (ID (From e), ID (To e)) \<in> conn (light (weight e) acc)"
    using res ses by auto
  have eq: "conn (light W acc) = conn (light W (GEdges g))" for W
  proof
    show "conn (light W acc) \<subseteq> conn (light W (GEdges g))"
      using sub by (intro conn_mono) (auto simp: set_light)
    show "conn (light W (GEdges g)) \<subseteq> conn (light W acc)"
    proof (rule conn_closed)
      fix a b assume "(a, b) \<in> joins (light W (GEdges g))"
      then obtain e where e: "e \<in> set (GEdges g)" "weight e \<le> W"
        and ab: "a = ID (From e)" "b = ID (To e)"
        by (auto simp: joins_def set_light)
      have "conn (light (weight e) acc) \<subseteq> conn (light W acc)"
        using e(2) by (intro conn_mono) (auto simp: set_light)
      then show "(a, b) \<in> conn (light W acc)"
        using cl [OF e(1)] ab by blast
    qed
  qed
  have "Kruskal sort_Slice ids g = Some (Inr ((acc, sum_list (map Weight acc)), g))"
    using nd loop by (simp add: Kruskal_def es_def [symmetric] uf_def [symmetric] n)
  then show ?thesis
    using f w sub eq unfolding V_def by blast
qed

section \<open>The connectivity check\<close>

lemma adjacency_entry_joined:
  assumes "well_formed g" and "k \<in> vertex_ids g" and "p \<in> set (adjacency g k)"
  shows "(k, ID (To p)) \<in> conn (GEdges g)"
proof -
  have "(ID (From p), ID (To p)) \<in> conn (light (weight p) (GEdges g))"
    by (rule adjacency_entry_conn [OF assms]) simp
  moreover have "conn (light (weight p) (GEdges g)) \<subseteq> conn (GEdges g)"
    by (intro conn_mono) (auto simp: set_light)
  ultimately show ?thesis
    using adjacency_entry(1) [OF assms] by auto
qed

text \<open>The search only marks vertices that edges join to the vertex it starts from.\<close>

lemma dfs_sound:
  "well_formed g \<Longrightarrow> n \<in> vertex_ids g \<Longrightarrow>
     fset (fmdom (dfs g n visited))
       \<subseteq> fset (fmdom visited) \<union> {y \<in> vertex_ids g. (n, y) \<in> conn (GEdges g)}"
  "well_formed g \<Longrightarrow> k \<in> vertex_ids g \<Longrightarrow> set edges \<subseteq> set (adjacency g k) \<Longrightarrow>
     fset (fmdom (dfs_edges g edges visited))
       \<subseteq> fset (fmdom visited) \<union> {y \<in> vertex_ids g. (k, y) \<in> conn (GEdges g)}"
proof (induction g n visited and g edges visited arbitrary: and k rule: dfs_dfs_edges.induct)
  case (1 g nodeID visited)
  have "fset (fmdom (dfs_edges g (Edges (vertex_at g nodeID)) (fmupd nodeID True visited)))
      \<subseteq> fset (fmdom (fmupd nodeID True visited))
        \<union> {y \<in> vertex_ids g. (nodeID, y) \<in> conn (GEdges g)}"
    by (rule "1.IH" [OF "1.prems"]) (simp add: adjacency_def)
  then show ?case
    using "1.prems"(2) by (subst dfs.simps) auto
next
  case (2 g visited)
  then show ?case by simp
next
  case (3 g edge edges visited)
  note wf = "3.prems"(1) and k = "3.prems"(2)
  have e: "edge \<in> set (adjacency g k)" and es: "set edges \<subseteq> set (adjacency g k)"
    using "3.prems"(3) by simp_all
  define v1 where "v1 = (if \<not> is_visited visited (ID (To edge)) then dfs g (ID (To edge)) visited else visited)"
  have toV: "ID (To edge) \<in> vertex_ids g"
    using adjacency_entry(2) [OF wf k e] .
  have kt: "(k, ID (To edge)) \<in> conn (GEdges g)"
    using adjacency_entry_joined [OF wf k e] .
  have a: "fset (fmdom v1) \<subseteq> fset (fmdom visited) \<union> {y \<in> vertex_ids g. (k, y) \<in> conn (GEdges g)}"
  proof (cases "is_visited visited (ID (To edge))")
    case True
    then show ?thesis by (simp add: v1_def)
  next
    case False
    have "fset (fmdom (dfs g (ID (To edge)) visited))
        \<subseteq> fset (fmdom visited) \<union> {y \<in> vertex_ids g. (ID (To edge), y) \<in> conn (GEdges g)}"
      using "3.IH"(1) [OF False wf toV] .
    moreover have "{y \<in> vertex_ids g. (ID (To edge), y) \<in> conn (GEdges g)}
        \<subseteq> {y \<in> vertex_ids g. (k, y) \<in> conn (GEdges g)}"
      using kt conn_trans by blast
    ultimately show ?thesis
      using False by (auto simp: v1_def)
  qed
  have b: "fset (fmdom (dfs_edges g edges v1))
      \<subseteq> fset (fmdom v1) \<union> {y \<in> vertex_ids g. (k, y) \<in> conn (GEdges g)}"
    unfolding v1_def by (rule "3.IH"(2) [OF wf k es])
  have "dfs_edges g (edge # edges) visited = dfs_edges g edges v1"
    by (subst dfs_edges.simps) (simp add: v1_def)
  then show ?case
    using a b by auto
qed

lemma IsConnected_disconnected:
  assumes wf: "well_formed g" and dis: "\<not> connected g" and it: "iteration_order g ids"
  shows "IsConnected ids g = (False, g)"
proof -
  define V where "V = vertex_ids g"
  obtain x y where xy: "x \<in> V" "y \<in> V" "(x, y) \<notin> conn (GEdges g)"
    using dis by (auto simp: connected_def V_def)
  have finV: "finite V" by (simp add: V_def)
  have "card V \<noteq> 0"
    using xy(1) finV by auto
  then have n0: "VertexCount g \<noteq> 0"
    by (simp add: VertexCount_card V_def)
  have ids: "set ids = V"
    using it by (simp add: iteration_order_def V_def vertex_ids_def)
  then obtain k rest where idk: "ids = k # rest"
    using xy(1) by (cases ids) auto
  have k: "k \<in> V" using ids idk by auto
  define C where "C = {z \<in> V. (k, z) \<in> conn (GEdges g)}"
  have "\<not> (x \<in> C \<and> y \<in> C)"
    using xy(3) conn_sym conn_trans unfolding C_def by blast
  then have "C \<subset> V"
    using xy(1,2) by (auto simp: C_def)
  then have lt: "card C < card V"
    using finV by (rule psubset_card_mono [rotated])
  have "fset (fmdom (dfs g k fmempty)) \<subseteq> C"
    using dfs_sound(1) [OF wf, of k fmempty] k by (simp add: C_def V_def)
  moreover have "finite C"
    using finV by (simp add: C_def)
  ultimately have "card (fset (fmdom (dfs g k fmempty))) \<le> card C"
    by (intro card_mono)
  then have "fcard (fmdom (dfs g k fmempty)) < card V"
    using lt by (simp add: fcard.rep_eq)
  then show ?thesis
    using n0 by (simp add: IsConnected_def idk VertexCount_card V_def Let_def)
qed

section \<open>Spanning trees and spanning forests\<close>

text \<open>The edge A--B of weight 4 and the vertex C on its own.\<close>

definition islands :: "unit Graph" where
  "islands = snd (AddVertex (snd (AddEdge (NewGraph False) (Edge vA vB 4 None))) vC)"

lemma conn_rev: "conn (rev es) = conn es"
  by (rule conn_cong) simp






lemma well_formed_islands: "well_formed islands"
  by code_simp

lemma disconnected_islands: "\<not> connected islands"
proof
  assume con: "connected islands"
  have v: "vertex_ids islands = {0, 1, 2}"
    by code_simp
  have t: "map edge_triple (GEdges islands) = [(0, 1, 4)]"
    by code_simp
  have "\<forall>e \<in> set (GEdges islands). fst (edge_triple e) \<in> {0, 1} \<and> fst (snd (edge_triple e)) \<in> {0, 1}"
    using t by (metis (no_types, lifting) list.set_map imageI empty_iff fst_conv insertCI insertE list.simps(15) set_empty snd_conv)
  then have w: "within {0, 1} (GEdges islands)"
    by (simp add: within_def edge_triple_def)
  have "(0, 2) \<in> conn (GEdges islands)"
    using con by (simp add: connected_def v)
  then have "(2 :: go_int) \<in> {0, 1}"
    using conn_within [OF w, of 0 2] by simp
  then show False by simp
qed






text \<open>
  C5 (amended).  On a graph of the same kind (\<open>well_formed\<close>) that is not connected, with
  \<open>V\<close> vertices:
  \<^verbatim>\<open>IsConnected\<close> returns false; \<^verbatim>\<open>Kruskal\<close> returns, as an ordinary result, a
  spanning forest (a set of edges of the graph without a cycle that joins exactly the
  vertices the graph joins) of fewer than \<open>V - 1\<close> edges; and \<^verbatim>\<open>Prim\<close>, from any start,
  returns only edges both of whose endpoints the graph joins to the start.
\<close>

theorem disconnected_graph:
  assumes wf: "well_formed g" and dis: "\<not> connected g"
    and srt: "sorts_by_weight sort_Slice" and it: "iteration_order g ids"
  shows "IsConnected ids g = (False, g)
    \<and> (\<exists>mst. Kruskal sort_Slice ids g = Some (Inr ((mst, sum_list (map Weight mst)), g))
          \<and> int (length mst) < VertexCount g - 1
          \<and> forest (rev mst) \<and> set mst \<subseteq> set (GEdges g) \<and> conn mst = conn (GEdges g))
    \<and> (\<exists>r total. Prim g startID = Inr ((r, total), g)
          \<and> (\<forall>p \<in> set (case r of None \<Rightarrow> [] | Some mst \<Rightarrow> mst).
                (startID, ID (From p)) \<in> conn (GEdges g)
                \<and> (startID, ID (To p)) \<in> conn (GEdges g)))"
proof -
  define V where "V = vertex_ids g"
  have finV: "finite V" by (simp add: V_def)
  obtain x y where xy: "x \<in> V" "y \<in> V" "(x, y) \<notin> conn (GEdges g)"
    using dis by (auto simp: connected_def V_def)
  obtain mst where k: "Kruskal sort_Slice ids g = Some (Inr ((mst, sum_list (map Weight mst)), g))"
    and kf: "forest (rev mst)" and kw: "within V mst" and ks: "set mst \<subseteq> set (GEdges g)"
    and kc: "\<And>W. conn (light W mst) = conn (light W (GEdges g))"
    using Kruskal_correct [OF wf srt it] unfolding V_def by blast
  have ke: "conn mst = conn (GEdges g)"
    using kc [of "2 ^ 63"] by (simp only: light_top)
  have kw': "within V (rev mst)"
    using kw by (simp add: within_def)
  have "(x, y) \<notin> conn (rev mst)"
    using xy(3) ke by (simp add: conn_rev)
  then have "2 \<le> card (components V (rev mst))"
    using finV xy(1,2) by (intro components_two)
  moreover have "length (rev mst) + card (components V (rev mst)) = card V"
    using finV kw' kf by (rule forest_count)
  ultimately have kl: "int (length mst) < VertexCount g - 1"
    by (simp add: VertexCount_card V_def)
  have "\<exists>r total. Prim g startID = Inr ((r, total), g)
      \<and> (\<forall>p \<in> set (case r of None \<Rightarrow> [] | Some mst \<Rightarrow> mst).
            (startID, ID (From p)) \<in> conn (GEdges g) \<and> (startID, ID (To p)) \<in> conn (GEdges g))"
  proof (cases "startID \<in> vertex_ids g")
    case False
    have "\<not> Directed g" using wf by (simp add: well_formed_def)
    moreover have "fmlookup (Vertices g) startID = None"
      using False by (simp add: vertex_ids_def fmdom_notD)
    ultimately have "Prim g startID = Inr ((None, 0), g)"
      by (simp add: Prim_def)
    then show ?thesis by simp
  next
    case True
    obtain mstP pq visited where p: "Prim g startID = Inr ((Some mstP, sum_list (map Weight mstP)), g)"
      and inv: "prim_inv g startID pq mstP (sum_list (map Weight mstP)) visited"
      using Prim_correct [OF wf True] by blast
    have w: "within (visited_set visited) mstP"
      and r: "\<And>v. v \<in> visited_set visited \<Longrightarrow> (startID, v) \<in> conn (GEdges g)"
      using inv unfolding prim_inv_def by blast+
    have "(startID, ID (From e)) \<in> conn (GEdges g) \<and> (startID, ID (To e)) \<in> conn (GEdges g)"
      if "e \<in> set mstP" for e
      using w r that by (simp add: within_def)
    then show ?thesis
      using p by simp
  qed
  then show ?thesis
    using IsConnected_disconnected [OF wf dis it] k kl kf ks ke by blast
qed

theorem disconnected_graph_witness:
  "well_formed islands \<and> \<not> connected islands
   \<and> sorts_by_weight (stable_sort :: (unit Edge \<Rightarrow> unit Edge \<Rightarrow> bool) \<Rightarrow> _)
   \<and> iteration_order islands [0, 1, 2]
   \<and> IsConnected [0, 1, 2] islands = (False, islands)
   \<and> (\<exists>mst. Kruskal stable_sort [0, 1, 2] islands = Some (Inr ((mst, sum_list (map Weight mst)), islands))
        \<and> length mst < 2)
   \<and> (\<exists>r total. Prim islands 0 = Inr ((r, total), islands)
        \<and> (\<forall>p \<in> set (case r of None \<Rightarrow> [] | Some mst \<Rightarrow> mst).
              (0, ID (From p)) \<in> conn (GEdges islands) \<and> (0, ID (To p)) \<in> conn (GEdges islands)))"
proof -
  have i: "iteration_order islands [0, 1, 2]"
    by code_simp
  have n: "VertexCount islands = 3"
    by code_simp
  show ?thesis
    using well_formed_islands disconnected_islands sorts_by_weight_stable_sort i
      disconnected_graph [OF well_formed_islands disconnected_islands
        sorts_by_weight_stable_sort i, of 0]
    by (simp add: n) blast
qed

text \<open>
  Three vertices, the first inserted carrying an edge of its own to the third, of weight 7;
  the only edge inserted is 0--1 of weight 4.
\<close>

definition stray :: "unit Graph" where
  "stray =
     snd (AddVertex (snd (AddEdge
       (snd (AddVertex (NewGraph False) (Vertex 0 ''A'' None [Edge vA vC 7 None])))
       (Edge vA vB 4 None))) vC)"

text \<open>
  C5 as stated fails on this graph: no edge of the graph joins vertex 2 to another vertex,
  but \<^verbatim>\<open>IsConnected\<close>, which follows the adjacency lists, returns true when the range
  yields vertex 0 first, and \<^verbatim>\<open>Prim\<close> from vertex 0 returns the edge to vertex 2.
\<close>

theorem disconnected_preloaded_counterexample:
  "\<not> connected stray \<and> (0, 2) \<notin> conn (GEdges stray)
   \<and> map edge_triple (GEdges stray) = [(0, 1, 4)]
   \<and> IsConnected [0, 1, 2] stray = (True, stray)
   \<and> map_sum id (\<lambda>((m, t), g). (map_option (map edge_triple) m, t)) (Prim stray 0)
        = Inr (Some [(0, 1, 4), (0, 2, 7)], 11)"
proof -
  have v: "vertex_ids stray = {0, 1, 2}"
    by code_simp
  have t: "map edge_triple (GEdges stray) = [(0, 1, 4)]"
    by code_simp
  have "\<forall>e \<in> set (GEdges stray). fst (edge_triple e) \<in> {0, 1} \<and> fst (snd (edge_triple e)) \<in> {0, 1}"
    using t by (metis (no_types, lifting) list.set_map imageI empty_iff fst_conv insertCI insertE list.simps(15) set_empty snd_conv)
  then have w: "within {0, 1} (GEdges stray)"
    by (simp add: within_def edge_triple_def)
  have n: "(0, 2) \<notin> conn (GEdges stray)"
  proof
    assume "(0, 2) \<in> conn (GEdges stray)"
    then have "(2 :: go_int) \<in> {0, 1}"
      using conn_within [OF w, of 0 2] by simp
    then show False by simp
  qed
  then have d: "\<not> connected stray"
    by (auto simp: connected_def v)
  have i: "IsConnected [0, 1, 2] stray = (True, stray)"
    by code_simp
  have p: "map_sum id (\<lambda>((m, t), g). (map_option (map edge_triple) m, t)) (Prim stray 0)
        = Inr (Some [(0, 1, 4), (0, 2, 7)], 11)"
    by code_simp
  show ?thesis
    using d n t i p by blast
qed

end
